theory Spec2Isabelle
  imports Main "HOL-Library.AList" "HOL-Library.Sublist"
begin

section \<open>Strings of the changelog generator\<close>

text \<open>
  The program is \<^verbatim>\<open>scripts/generate_changelog_html.py\<close>. A Python \<^verbatim>\<open>str\<close> is modelled
  as a \<^typ>\<open>string\<close>, a list of characters with code points 0 to 255; text with code
  points above 255 is outside the model. On this range the library predicates below are
  the ones of CPython: \<^verbatim>\<open>str.isspace\<close>, the decimal digits of the class \<^verbatim>\<open>\d\<close>,
  \<^verbatim>\<open>str.lower\<close> and \<^verbatim>\<open>repr\<close>.
\<close>

definition isspace :: "char \<Rightarrow> bool" where
  "isspace c = ((of_char c :: nat) \<in> {9, 10, 11, 12, 13, 28, 29, 30, 31, 32, 133, 160})"

definition strip :: "string \<Rightarrow> string" where
  \<comment> \<open>\<^verbatim>\<open>s.strip()\<close>\<close>
  "strip s = rev (dropWhile isspace (rev (dropWhile isspace s)))"

definition is_digit :: "char \<Rightarrow> bool" where
  \<comment> \<open>the class \<^verbatim>\<open>\d\<close> of \<^verbatim>\<open>re\<close>\<close>
  "is_digit c = (c \<in> set ''0123456789'')"

definition lower_char :: "char \<Rightarrow> char" where
  "lower_char c =
     (let n = (of_char c :: nat)
      in if (65 \<le> n \<and> n \<le> 90) \<or> (192 \<le> n \<and> n \<le> 222 \<and> n \<noteq> 215)
         then char_of (n + 32) else c)"

definition lower :: "string \<Rightarrow> string" where
  \<comment> \<open>\<^verbatim>\<open>s.lower()\<close>\<close>
  "lower s = map lower_char s"

fun split_lines :: "string \<Rightarrow> string list" where
  \<comment> \<open>\<^verbatim>\<open>content.split('\n')\<close>: never empty, one more piece than there are newlines\<close>
  "split_lines [] = [[]]"
| "split_lines (c # cs) =
     (if c = CHR 0x0A then [] # split_lines cs
      else (case split_lines cs of
              l # ls \<Rightarrow> (c # l) # ls
            | [] \<Rightarrow> [[c]]))"

fun str_in :: "string \<Rightarrow> string \<Rightarrow> bool" where
  \<comment> \<open>\<^verbatim>\<open>sub in s\<close>: \<open>sub\<close> occurs in \<open>s\<close> as a contiguous run\<close>
  "str_in sub [] = (sub = [])"
| "str_in sub (c # cs) = (prefix sub (c # cs) \<or> str_in sub cs)"

fun join :: "string \<Rightarrow> string list \<Rightarrow> string" where
  \<comment> \<open>\<^verbatim>\<open>sep.join(xs)\<close>\<close>
  "join sep [] = []"
| "join sep [x] = x"
| "join sep (x # y # ys) = x @ sep @ join sep (y # ys)"

text \<open>
  \<^verbatim>\<open>re.sub\<close> and \<^verbatim>\<open>str.replace\<close> both scan the text from the left; where the pattern
  matches, the replacement is emitted and the scan goes on behind the match, elsewhere
  one character is copied. \<open>m\<close> tries the pattern at the head of the remaining text and
  returns the replacement with the length of the match; \<open>k\<close> counts the characters of
  the last match that are still to be skipped. No pattern of the program matches the
  empty string.
\<close>

fun sub_scan :: "(string \<Rightarrow> (string \<times> nat) option) \<Rightarrow> nat \<Rightarrow> string \<Rightarrow> string" where
  "sub_scan m k [] = []"
| "sub_scan m (Suc k) (c # cs) = sub_scan m k cs"
| "sub_scan m 0 (c # cs) =
     (case m (c # cs) of
        Some (out, n) \<Rightarrow> out @ sub_scan m (n - 1) cs
      | None \<Rightarrow> c # sub_scan m 0 cs)"

definition replace :: "string \<Rightarrow> string \<Rightarrow> string \<Rightarrow> string" where
  \<comment> \<open>\<^verbatim>\<open>s.replace(old, new)\<close>; an empty \<open>old\<close> matches before every character and at the end\<close>
  "replace old new s =
     (if old = [] then new @ concat (map (\<lambda>c. c # new) s)
      else sub_scan (\<lambda>t. if prefix old t then Some (new, length old) else None) 0 s)"

subsection \<open>The textual dump \<^verbatim>\<open>str(sections)\<close>\<close>

definition hex2 :: "char \<Rightarrow> string" where
  "hex2 c = (let n = (of_char c :: nat)
             in [''0123456789abcdef'' ! (n div 16), ''0123456789abcdef'' ! (n mod 16)])"

definition printable :: "char \<Rightarrow> bool" where
  "printable c = (let n = (of_char c :: nat) in (32 \<le> n \<and> n < 127) \<or> (161 \<le> n \<and> n \<noteq> 173))"

definition repr_char :: "char \<Rightarrow> char \<Rightarrow> string" where
  "repr_char q c =
     (if c = q \<or> c = CHR 0x5C then [CHR 0x5C, c]
      else if c = CHR 0x09 then [CHR 0x5C, CHR ''t'']
      else if c = CHR 0x0A then [CHR 0x5C, CHR ''n'']
      else if c = CHR 0x0D then [CHR 0x5C, CHR ''r'']
      else if printable c then [c]
      else [CHR 0x5C, CHR ''x''] @ hex2 c)"

definition repr_str :: "string \<Rightarrow> string" where
  \<comment> \<open>the quote is \<^verbatim>\<open>"\<close> when the text holds a \<^verbatim>\<open>'\<close> and no \<^verbatim>\<open>"\<close>, and \<^verbatim>\<open>'\<close> otherwise\<close>
  "repr_str s =
     (let q = (if CHR 0x27 \<in> set s \<and> CHR 0x22 \<notin> set s then CHR 0x22 else CHR 0x27)
      in [q] @ concat (map (repr_char q) s) @ [q])"

definition repr_list :: "string list \<Rightarrow> string" where
  "repr_list xs = ''['' @ join '', '' (map repr_str xs) @ '']''"

definition repr_dict :: "(string \<times> string list) list \<Rightarrow> string" where
  "repr_dict d =
     ''{'' @ join '', '' (map (\<lambda>(k, v). repr_str k @ '': '' @ repr_list v) d) @ ''}''"

section \<open>The patterns\<close>

text \<open>
  Each pattern is matched at the head of a text, as \<^verbatim>\<open>re.match\<close> does. In every
  pattern a greedy class \<^verbatim>\<open>[^x]+\<close> is followed by the literal \<^verbatim>\<open>x\<close>, so the class
  takes exactly the characters before the first \<^verbatim>\<open>x\<close> and no shorter run can match.
\<close>

fun date_token :: "string \<Rightarrow> bool" where
  \<comment> \<open>\<^verbatim>\<open>\d{4}-\d{2}-\d{2}\<close>, on a text of exactly ten characters\<close>
  "date_token [y1, y2, y3, y4, h1, m1, m2, h2, d1, d2] =
     (is_digit y1 \<and> is_digit y2 \<and> is_digit y3 \<and> is_digit y4 \<and> h1 = CHR ''-'' \<and>
      is_digit m1 \<and> is_digit m2 \<and> h2 = CHR ''-'' \<and> is_digit d1 \<and> is_digit d2)"
| "date_token _ = False"

definition release_match :: "string \<Rightarrow> (string \<times> string) option" where
  \<comment> \<open>\<^verbatim>\<open>re.match(r'^## \[([^\]]+)\] - (\d{4}-\d{2}-\d{2})', line)\<close>: groups 1 and 2\<close>
  "release_match line =
     (if prefix ''## ['' line then
        (let rest = drop 4 line;
             v = takeWhile (\<lambda>c. c \<noteq> CHR '']'') rest;
             after = dropWhile (\<lambda>c. c \<noteq> CHR '']'') rest
         in if v \<noteq> [] \<and> prefix ''] - '' after \<and> date_token (take 10 (drop 4 after))
            then Some (v, take 10 (drop 4 after)) else None)
      else None)"

definition section_match :: "string \<Rightarrow> string option" where
  \<comment> \<open>\<^verbatim>\<open>re.match(r'^### (.+)$', line)\<close>: group 1. The dot matches no newline, and
      \<^verbatim>\<open>$\<close> matches at the end and before a newline that ends the text.\<close>
  "section_match line =
     (if prefix ''### '' line then
        (let rest = drop 4 line;
             g = takeWhile (\<lambda>c. c \<noteq> CHR 0x0A) rest;
             after = dropWhile (\<lambda>c. c \<noteq> CHR 0x0A) rest
         in if g \<noteq> [] \<and> (after = [] \<or> after = [CHR 0x0A]) then Some g else None)
      else None)"

definition bold_match :: "string \<Rightarrow> (string \<times> nat) option" where
  \<comment> \<open>\<^verbatim>\<open>\*\*([^*]+)\*\*\<close>: group 1 and the end of the match\<close>
  "bold_match s =
     (if prefix ''**'' s then
        (let g = takeWhile (\<lambda>c. c \<noteq> CHR ''*'') (drop 2 s);
             after = dropWhile (\<lambda>c. c \<noteq> CHR ''*'') (drop 2 s)
         in if g \<noteq> [] \<and> prefix ''**'' after then Some (g, length g + 4) else None)
      else None)"

definition code_match :: "string \<Rightarrow> (string \<times> nat) option" where
  \<comment> \<open>a backtick, \<^verbatim>\<open>([^`]+)\<close>, a backtick: group 1 and the end of the match\<close>
  "code_match s =
     (if prefix [CHR 0x60] s then
        (let g = takeWhile (\<lambda>c. c \<noteq> CHR 0x60) (drop 1 s);
             after = dropWhile (\<lambda>c. c \<noteq> CHR 0x60) (drop 1 s)
         in if g \<noteq> [] \<and> prefix [CHR 0x60] after then Some (g, length g + 2) else None)
      else None)"

definition link_match :: "string \<Rightarrow> ((string \<times> string) \<times> nat) option" where
  \<comment> \<open>\<^verbatim>\<open>\[([^\]]+)\]\(([^)]+)\)\<close>: groups 1 and 2 and the end of the match\<close>
  "link_match s =
     (if prefix ''['' s then
        (let label = takeWhile (\<lambda>c. c \<noteq> CHR '']'') (drop 1 s);
             after = dropWhile (\<lambda>c. c \<noteq> CHR '']'') (drop 1 s);
             target = takeWhile (\<lambda>c. c \<noteq> CHR '')'') (drop 2 after);
             tail = dropWhile (\<lambda>c. c \<noteq> CHR '')'') (drop 2 after)
         in if label \<noteq> [] \<and> prefix '']('' after \<and> target \<noteq> [] \<and> prefix '')'' tail
            then Some ((label, target), length label + length target + 4) else None)
      else None)"

section \<open>The parser\<close>

record release =
  version :: string
  date :: string
  title :: string
  tags :: "(string \<times> string) list"
  sections :: "(string \<times> string list) list"

text \<open>
  \<^verbatim>\<open>sections\<close> is a Python \<^verbatim>\<open>dict\<close>, which keeps its keys in the order of their first
  insertion: an association list with \<^const>\<open>AList.update\<close>, which replaces the value of
  a key in place and appends a new key at the end. Reading a key that is absent raises
  \<^verbatim>\<open>KeyError\<close>.

  The state of the loop is \<^verbatim>\<open>releases\<close>, \<^verbatim>\<open>current_release\<close> and \<^verbatim>\<open>current_section\<close>;
  the last two are \<^verbatim>\<open>None\<close> or a value. A release record is a dictionary of five keys
  and so always true in a condition; a section name is true when it is not empty.
\<close>

datatype error = KeyError | ValueError

type_synonym parse_state = "release list \<times> release option \<times> string option"

definition truthy :: "string option \<Rightarrow> bool" where
  "truthy s = (s \<noteq> None \<and> s \<noteq> Some [])"

definition close_release :: "release list \<Rightarrow> release option \<Rightarrow> release list" where
  \<comment> \<open>\<^verbatim>\<open>if current_release: releases.append(current_release)\<close>\<close>
  "close_release releases current_release =
     (case current_release of None \<Rightarrow> releases | Some r \<Rightarrow> releases @ [r])"

definition append_item :: "release \<Rightarrow> string \<Rightarrow> string \<Rightarrow> error + release" where
  \<comment> \<open>\<^verbatim>\<open>current_release['sections'][current_section].append(item)\<close>\<close>
  "append_item r name item =
     (case map_of (sections r) name of
        None \<Rightarrow> Inl KeyError
      | Some items \<Rightarrow> Inr (r\<lparr>sections := AList.update name (items @ [item]) (sections r)\<rparr>))"

definition parse_line :: "parse_state \<Rightarrow> string \<Rightarrow> error + parse_state" where
  \<comment> \<open>one turn of the \<^verbatim>\<open>while\<close> loop of \<^verbatim>\<open>parse_changelog\<close>\<close>
  "parse_line st line =
     (case st of (releases, current_release, current_section) \<Rightarrow>
        (case release_match line of
           Some (v, d) \<Rightarrow>
             Inr (close_release releases current_release,
                  Some \<lparr>version = v, date = d, title = [], tags = [], sections = []\<rparr>,
                  None)
         | None \<Rightarrow>
             (case (section_match line, current_release) of
                (Some g, Some r) \<Rightarrow>
                  Inr (releases,
                       Some (r\<lparr>sections := AList.update (strip g) [] (sections r)\<rparr>),
                       Some (strip g))
              | _ \<Rightarrow>
                  if prefix ''- '' line \<and> current_release \<noteq> None \<and> truthy current_section then
                    (case (current_release, current_section) of
                       (Some r, Some name) \<Rightarrow>
                         (case append_item r name (strip (drop 2 line)) of
                            Inl e \<Rightarrow> Inl e
                          | Inr r' \<Rightarrow> Inr (releases, Some r', current_section))
                     | _ \<Rightarrow> Inr st)
                  else Inr st)))"

fun parse_loop :: "parse_state \<Rightarrow> string list \<Rightarrow> error + parse_state" where
  \<comment> \<open>the index \<^verbatim>\<open>i\<close> goes up by one in every turn: the loop visits each line once\<close>
  "parse_loop st [] = Inr st"
| "parse_loop st (line # lines) =
     (case parse_line st line of
        Inl e \<Rightarrow> Inl e
      | Inr st' \<Rightarrow> parse_loop st' lines)"

definition parse_lines :: "string list \<Rightarrow> error + release list" where
  "parse_lines lines =
     (case parse_loop ([], None, None) lines of
        Inl e \<Rightarrow> Inl e
      | Inr (releases, current_release, current_section) \<Rightarrow>
          Inr (close_release releases current_release))"

definition parse_changelog :: "string \<Rightarrow> error + release list" where
  "parse_changelog content = parse_lines (split_lines content)"

section \<open>Dates\<close>

text \<open>
  \<^verbatim>\<open>datetime.strptime(date_str, '%Y-%m-%d')\<close> belongs to the standard library. CPython
  turns the format into the pattern
  \<^verbatim>\<open>(?P<Y>\d\d\d\d)-(?P<m>1[0-2]|0[1-9]|[1-9])-(?P<d>3[0-1]|[1-2]\d|0[1-9]|[1-9]| [1-9])\<close>,
  matches it at the head of the text, and raises \<^verbatim>\<open>ValueError\<close> when it does not match,
  when text remains behind the match, or when the numbers are no date of the calendar
  (years 1 to 9999). A pattern is a function from a text to its matches in the order in
  which \<^verbatim>\<open>re\<close> tries them, each with the text that remains.
\<close>

type_synonym pattern = "string \<Rightarrow> (string \<times> string) list"

definition one :: "string \<Rightarrow> pattern" where
  \<comment> \<open>one character of the class \<open>cs\<close>\<close>
  "one cs s = (case s of [] \<Rightarrow> [] | c # rest \<Rightarrow> if c \<in> set cs then [([c], rest)] else [])"

definition seq :: "pattern \<Rightarrow> pattern \<Rightarrow> pattern" where
  "seq p q s = [(a @ b, r2). (a, r1) \<leftarrow> p s, (b, r2) \<leftarrow> q r1]"

definition alt :: "pattern list \<Rightarrow> pattern" where
  "alt ps s = concat (map (\<lambda>p. p s) ps)"

definition digit :: pattern where
  "digit = one ''0123456789''"

definition year_pattern :: pattern where
  "year_pattern = seq digit (seq digit (seq digit digit))"

definition month_pattern :: pattern where
  "month_pattern =
     alt [seq (one ''1'') (one ''012''), seq (one ''0'') (one ''123456789''), one ''123456789'']"

definition day_pattern :: pattern where
  "day_pattern =
     alt [seq (one ''3'') (one ''01''), seq (one ''12'') digit, seq (one ''0'') (one ''123456789''),
          one ''123456789'', seq (one '' '') (one ''123456789'')]"

definition date_pattern :: "string \<Rightarrow> (string \<times> string \<times> string \<times> string) list" where
  \<comment> \<open>the groups \<open>Y\<close>, \<open>m\<close>, \<open>d\<close> and the text behind the match\<close>
  "date_pattern s =
     [(y, m, d, r5). (y, r1) \<leftarrow> year_pattern s, (h1, r2) \<leftarrow> one ''-'' r1,
                     (m, r3) \<leftarrow> month_pattern r2, (h2, r4) \<leftarrow> one ''-'' r3,
                     (d, r5) \<leftarrow> day_pattern r4]"

definition py_int :: "string \<Rightarrow> nat" where
  \<comment> \<open>\<^verbatim>\<open>int(s)\<close> on decimal digits, blanks around them ignored\<close>
  "py_int s = foldl (\<lambda>n c. 10 * n + (of_char c - 48)) 0 (strip s)"

definition is_leap :: "nat \<Rightarrow> bool" where
  "is_leap y = (y mod 4 = 0 \<and> (y mod 100 \<noteq> 0 \<or> y mod 400 = 0))"

definition days_in_month :: "nat \<Rightarrow> nat \<Rightarrow> nat" where
  "days_in_month y m =
     (if m = 2 then (if is_leap y then 29 else 28)
      else if m \<in> {4, 6, 9, 11} then 30 else 31)"

definition valid_date :: "nat \<Rightarrow> nat \<Rightarrow> nat \<Rightarrow> bool" where
  "valid_date y m d = (1 \<le> y \<and> y \<le> 9999 \<and> 1 \<le> m \<and> m \<le> 12 \<and> 1 \<le> d \<and> d \<le> days_in_month y m)"

definition strptime :: "string \<Rightarrow> error + (nat \<times> nat \<times> nat)" where
  "strptime s =
     (case date_pattern s of
        [] \<Rightarrow> Inl ValueError
      | (y, m, d, rest) # others \<Rightarrow>
          if rest \<noteq> [] then Inl ValueError
          else if valid_date (py_int y) (py_int m) (py_int d)
               then Inr (py_int y, py_int m, py_int d)
               else Inl ValueError)"

text \<open>
  \<^verbatim>\<open>dt.strftime('%B %d, %Y')\<close> in the C locale: the English name of the month, the day
  in two digits and the year. The C library of Linux writes a year below 1000 without
  leading zeros, and so does \<open>str_nat\<close>.
\<close>

fun str_nat :: "nat \<Rightarrow> string" where
  "str_nat n =
     (if n < 10 then [char_of (48 + n)] else str_nat (n div 10) @ [char_of (48 + n mod 10)])"

definition month_name :: "nat \<Rightarrow> string" where
  \<comment> \<open>\<^verbatim>\<open>%B\<close>, for a month from 1 to 12, as every date that \<open>strptime\<close> returns has\<close>
  "month_name m =
     [''January'', ''February'', ''March'', ''April'', ''May'', ''June'', ''July'', ''August'',
      ''September'', ''October'', ''November'', ''December''] ! (m - 1)"

definition strftime :: "nat \<times> nat \<times> nat \<Rightarrow> string" where
  "strftime dt =
     (case dt of (y, m, d) \<Rightarrow>
        month_name m @ '' '' @ (if d < 10 then ''0'' else []) @ str_nat d @ '', '' @ str_nat y)"

definition format_date :: "string \<Rightarrow> string" where
  \<comment> \<open>the bare \<^verbatim>\<open>except\<close> catches every error and returns the argument\<close>
  "format_date date_str =
     (case strptime date_str of
        Inr dt \<Rightarrow> strftime dt
      | Inl e \<Rightarrow> date_str)"

section \<open>Tags and title\<close>

definition has_key :: "string \<Rightarrow> (string \<times> string list) list \<Rightarrow> bool" where
  \<comment> \<open>\<^verbatim>\<open>name in sections\<close>\<close>
  "has_key name secs = (map_of secs name \<noteq> None)"

definition topic_tag :: "string \<Rightarrow> (string \<times> string) list" where
  \<comment> \<open>the chain of \<^verbatim>\<open>if\<close> and \<^verbatim>\<open>elif\<close> of \<^verbatim>\<open>get_tags\<close>: what it appends\<close>
  "topic_tag content =
     (if str_in ''auth'' content then [(''feature'', ''Authentication'')]
      else if str_in ''resilience'' content \<or> str_in ''circuit'' content \<or> str_in ''retry'' content
        then [(''feature'', ''Resilience'')]
      else if str_in ''cqrs'' content \<or> str_in ''event'' content then [(''feature'', ''CQRS'')]
      else if str_in ''mcp'' content then [(''feature'', ''MCP'')]
      else if str_in ''grpc'' content \<or> str_in ''graphql'' content \<or> str_in ''protocol'' content
        then [(''feature'', ''Multi-Protocol'')]
      else if str_in ''shutdown'' content then [(''feature'', ''Production-Ready'')]
      else if str_in ''security'' content then [(''feature'', ''Security'')]
      else [])"

definition get_tags :: "release \<Rightarrow> (string \<times> string) list" where
  "get_tags release =
     (let secs = sections release;
          tags1 = (if has_key ''Added'' secs then [(''new'', ''New'')] else []);
          tags2 = tags1 @ (if has_key ''Changed'' secs then [(''feature'', ''Changed'')] else []);
          tags3 = tags2 @ (if has_key ''Fixed'' secs then [(''fix'', ''Fixed'')] else []);
          tags4 = tags3 @ (if has_key ''Breaking'' secs \<or> str_in ''BREAKING'' (repr_dict secs)
                           then [(''breaking'', ''Breaking'')] else []);
          content = lower (repr_dict secs);
          tags5 = tags4 @ topic_tag content
      in take 4 tags5)"

fun first_bold :: "string list \<Rightarrow> string option" where
  \<comment> \<open>the \<^verbatim>\<open>for\<close> loop of \<^verbatim>\<open>get_title\<close>: the group of the first item that matches\<close>
  "first_bold [] = None"
| "first_bold (item # items) =
     (case bold_match item of
        Some (g, n) \<Rightarrow> Some g
      | None \<Rightarrow> first_bold items)"

definition get_title :: "release \<Rightarrow> string" where
  "get_title release =
     (let added = (case map_of (sections release) ''Added'' of None \<Rightarrow> [] | Some items \<Rightarrow> items)
      in case added of
           [] \<Rightarrow> ''Version '' @ version release
         | first # others \<Rightarrow>
             (case first_bold added of
                Some g \<Rightarrow> g
              | None \<Rightarrow> if length first > 50 then take 50 first @ ''...'' else first))"

section \<open>The renderer\<close>

definition escape_html :: "string \<Rightarrow> string" where
  "escape_html text =
     replace ''>'' ''&gt;'' (replace ''<'' ''&lt;'' (replace ''&'' ''&amp;'' text))"

definition format_item :: "string \<Rightarrow> string" where
  \<open>format_item item =
     (let item1 = sub_scan (\<lambda>t. map_option (\<lambda>(g, n). (''<strong>'' @ g @ ''</strong>'', n))
                                   (bold_match t)) 0 item;
          item2 = sub_scan (\<lambda>t. map_option (\<lambda>(g, n). (''<code class="code-inline">'' @ g @ ''</code>'', n))
                                   (code_match t)) 0 item1;
          item3 = sub_scan (\<lambda>t. map_option (\<lambda>((label, target), n).
                                     (''<a href="'' @ target @ ''">'' @ label @ ''</a>'', n))
                                   (link_match t)) 0 item2
      in item3)\<close>

definition indent :: "nat \<Rightarrow> string" where
  "indent n = replicate n (CHR '' '')"

definition tags_html :: "(string \<times> string) list \<Rightarrow> string" where
  \<open>tags_html ts =
     join (''\<newline>'' @ indent 28)
       (map (\<lambda>t. ''<span class="tag '' @ fst t @ ''">'' @ snd t @ ''</span>'') ts)\<close>

definition items_html :: "string list \<Rightarrow> string" where
  "items_html items =
     join (''\<newline>'' @ indent 32)
       (map (\<lambda>item. ''<li>'' @ format_item item @ ''</li>'') (take 10 items))"

definition section_block :: "string \<Rightarrow> string list \<Rightarrow> string" where
  \<comment> \<open>what one turn of the loop over \<^verbatim>\<open>sections.items()\<close> adds to \<^verbatim>\<open>sections_html\<close>\<close>
  \<open>section_block section_name items =
     ''\<newline>'' @
     indent 24 @ ''<div class="section">\<newline>'' @
     indent 28 @ ''<h3 class="section-title">'' @ escape_html section_name @ ''</h3>\<newline>'' @
     indent 28 @ ''<ul>\<newline>'' @
     indent 32 @ items_html items @ ''\<newline>'' @
     indent 28 @ ''</ul>\<newline>'' @
     indent 24 @ ''</div>\<newline>''\<close>

fun sections_html :: "string \<Rightarrow> (string \<times> string list) list \<Rightarrow> string" where
  \<comment> \<open>the loop over \<^verbatim>\<open>sections.items()\<close>, from the text gathered so far\<close>
  "sections_html acc [] = acc"
| "sections_html acc ((section_name, items) # rest) =
     (if items = [] then sections_html acc rest
      else sections_html (acc @ section_block section_name items) rest)"

definition generate_release_html :: "release \<Rightarrow> string" where
  \<open>generate_release_html release =
     ''\<newline>'' @
     indent 16 @ ''<!-- v'' @ version release @ '' -->\<newline>'' @
     indent 16 @ ''<div class="release">\<newline>'' @
     indent 20 @ ''<div class="release-meta">\<newline>'' @
     indent 24 @ ''<div class="release-date">'' @ format_date (date release) @ ''</div>\<newline>'' @
     indent 24 @ ''<div class="release-version">'' @ version release @ ''</div>\<newline>'' @
     indent 20 @ ''</div>\<newline>'' @
     indent 20 @ ''<div class="release-content">\<newline>'' @
     indent 24 @ ''<h2 class="release-title">'' @ escape_html (get_title release) @ ''</h2>\<newline>'' @
     indent 24 @ ''<div class="release-tags">\<newline>'' @
     indent 28 @ tags_html (get_tags release) @ ''\<newline>'' @
     indent 24 @ ''</div>\<newline>'' @
     sections_html [] (sections release) @ ''\<newline>'' @
     indent 20 @ ''</div>\<newline>'' @
     indent 16 @ ''</div>\<newline>''\<close>

text \<open>
  \<^verbatim>\<open>HTML_TEMPLATE\<close> is a constant page of markup and style sheets with one line
  \<^verbatim>\<open>{releases_html}\<close>; it is the parameter \<open>template\<close> here, and what is proved holds
  for every template.
\<close>

definition generate_html :: "string \<Rightarrow> release list \<Rightarrow> string" where
  "generate_html template releases =
     replace ''{releases_html}'' (concat (map generate_release_html (take 15 releases))) template"

section \<open>Notions used in the statements\<close>

definition section_known :: "parse_state \<Rightarrow> bool" where
  \<comment> \<open>the current section, when there is one, is a key of the open record\<close>
  "section_known st =
     (case st of (releases, current_release, current_section) \<Rightarrow>
        (case (current_release, current_section) of
           (Some r, Some name) \<Rightarrow> has_key name (sections r)
         | _ \<Rightarrow> True))"

definition headers :: "parse_state \<Rightarrow> (string \<times> string) list" where
  \<comment> \<open>version and date of the records of a state, the open one last\<close>
  "headers st =
     (case st of (releases, current_release, current_section) \<Rightarrow>
        map (\<lambda>r. (version r, date r)) (close_release releases current_release))"

definition trimmed :: "string \<Rightarrow> bool" where
  \<comment> \<open>no white space at either end\<close>
  "trimmed s = (case s of [] \<Rightarrow> True | c # cs \<Rightarrow> \<not> isspace c \<and> \<not> isspace (last s))"

definition item_of :: "string list \<Rightarrow> string \<Rightarrow> bool" where
  \<comment> \<open>\<open>item\<close> is what follows the dash and the blank of one of the lines, trimmed\<close>
  "item_of lines item = (\<exists>line \<in> set lines. prefix ''- '' line \<and> item = strip (drop 2 line))"

definition well_formed :: "string list \<Rightarrow> release \<Rightarrow> bool" where
  "well_formed lines r =
     (version r \<noteq> [] \<and> CHR '']'' \<notin> set (version r) \<and>
      length (date r) = 10 \<and> date_token (date r) \<and>
      (\<forall>(name, items) \<in> set (sections r). \<forall>item \<in> set items. trimmed item \<and> item_of lines item))"

definition all_well_formed :: "string list \<Rightarrow> parse_state \<Rightarrow> bool" where
  "all_well_formed lines st =
     (case st of (releases, current_release, current_section) \<Rightarrow>
        \<forall>r \<in> set (close_release releases current_release). well_formed lines r)"

text \<open>
  The words of the specification about the sections of one release: the label of a
  section header, the labels in the order in which they are first seen, the items listed
  under a header (up to the next section header), and the lines that follow the last
  header of a label.
\<close>

definition section_label :: "string \<Rightarrow> string option" where
  "section_label line = map_option strip (section_match line)"

fun first_seen :: "'a list \<Rightarrow> 'a list" where
  "first_seen [] = []"
| "first_seen (x # xs) = x # filter (\<lambda>y. y \<noteq> x) (first_seen xs)"

definition listed_items :: "string list \<Rightarrow> string list" where
  "listed_items lines =
     map (\<lambda>line. strip (drop 2 line))
       (filter (prefix ''- '') (takeWhile (\<lambda>line. section_match line = None) lines))"

fun after_last :: "string \<Rightarrow> string list \<Rightarrow> string list option" where
  "after_last name [] = None"
| "after_last name (line # lines) =
     (case after_last name lines of
        Some rest \<Rightarrow> Some rest
      | None \<Rightarrow> if section_label line = Some name then Some lines else None)"

text \<open>
  Inside a release, on a line that is no release header, a turn of the loop changes only
  the sections of the open record and the current section: \<open>body_step\<close> is that change,
  and \<open>contents\<close> is what the sections hold for a label after a run of such lines.
\<close>

definition body_step ::
  "(string \<times> string list) list \<times> string option \<Rightarrow> string \<Rightarrow>
   (string \<times> string list) list \<times> string option" where
  "body_step p line =
     (case p of (secs, cs) \<Rightarrow>
      case section_match line of
        Some g \<Rightarrow> (AList.update (strip g) [] secs, Some (strip g))
      | None \<Rightarrow>
          (case cs of
             None \<Rightarrow> (secs, cs)
           | Some name \<Rightarrow>
               (case map_of secs name of
                  None \<Rightarrow> (secs, cs)
                | Some items \<Rightarrow>
                    if prefix ''- '' line \<and> name \<noteq> []
                    then (AList.update name (items @ [strip (drop 2 line)]) secs, cs)
                    else (secs, cs))))"

definition label_known :: "(string \<times> string list) list \<times> string option \<Rightarrow> bool" where
  "label_known p =
     (case p of (secs, cs) \<Rightarrow>
        (case cs of None \<Rightarrow> True | Some name \<Rightarrow> map_of secs name \<noteq> None))"

definition contents ::
  "(string \<times> string list) list \<times> string option \<Rightarrow> string list \<Rightarrow> string \<Rightarrow>
   string list option" where
  "contents p body name =
     (case p of (secs, cs) \<Rightarrow>
      case after_last name body of
        Some rest \<Rightarrow> Some (if name = [] then [] else listed_items rest)
      | None \<Rightarrow>
          if cs = Some name \<and> name \<noteq> []
          then map_option (\<lambda>old. old @ listed_items body) (map_of secs name)
          else map_of secs name)"

text \<open>
  The words of the specification about titles, tags and escaping: an item begins with a
  bold span when it is two stars, a text \<open>g\<close> that is not empty and holds no star, and
  two stars again, followed by anything; the keyword groups of the topic tags in their
  priority, the topic chosen by the first group with a keyword in the text, and all tags
  in their priority; and the entity that stands for one character.
\<close>

definition bold_span :: "string \<Rightarrow> string \<Rightarrow> bool" where
  "bold_span item g = (\<exists>rest. item = ''**'' @ g @ ''**'' @ rest \<and> g \<noteq> [] \<and> CHR ''*'' \<notin> set g)"

definition topic_groups :: "(string list \<times> string) list" where
  "topic_groups =
     [([''auth''], ''Authentication''),
      ([''resilience'', ''circuit'', ''retry''], ''Resilience''),
      ([''cqrs'', ''event''], ''CQRS''),
      ([''mcp''], ''MCP''),
      ([''grpc'', ''graphql'', ''protocol''], ''Multi-Protocol''),
      ([''shutdown''], ''Production-Ready''),
      ([''security''], ''Security'')]"

definition first_topic :: "string \<Rightarrow> (string \<times> string) list" where
  "first_topic content =
     (case find (\<lambda>(keywords, label). \<exists>k \<in> set keywords. str_in k content) topic_groups of
        None \<Rightarrow> []
      | Some (keywords, label) \<Rightarrow> [(''feature'', label)])"

definition tag_priority :: "(string \<times> string) list" where
  "tag_priority =
     [(''new'', ''New''), (''feature'', ''Changed''), (''fix'', ''Fixed''), (''breaking'', ''Breaking''),
      (''feature'', ''Authentication''), (''feature'', ''Resilience''), (''feature'', ''CQRS''),
      (''feature'', ''MCP''), (''feature'', ''Multi-Protocol''), (''feature'', ''Production-Ready''),
      (''feature'', ''Security'')]"

definition escape_char :: "char \<Rightarrow> string" where
  "escape_char c =
     (if c = CHR ''&'' then ''&amp;''
      else if c = CHR ''<'' then ''&lt;''
      else if c = CHR ''>'' then ''&gt;''
      else [c])"

text \<open>
  The value of a decimal digit, and the first match of a pattern when it takes the whole
  text.
\<close>

definition digit_value :: "char \<Rightarrow> nat" where
  "digit_value c = of_char c - 48"

definition first_whole :: "(string \<times> string) list \<Rightarrow> string option" where
  "first_whole ms = (case ms of [] \<Rightarrow> None | (d, rest) # others \<Rightarrow> if rest \<noteq> [] then None else Some d)"

text \<open>
  An item that uses inline markup is a sequence of spans: a plain text, a bold span
  \<^verbatim>\<open>**g**\<close>, a code span between two backticks, or a link \<^verbatim>\<open>[label](target)\<close>.
  \<open>span_source\<close> is the span as the changelog writes it and \<open>span_html\<close> the span as the
  page shows it. A span is well formed when the texts of a bold span, a code span and a
  link are not empty, no text holds a star, a backtick or an opening square bracket of its
  own, the label of a link holds no closing square bracket and its target no closing
  parenthesis.
\<close>

datatype span = Plain string | Bold string | Code string | Link string string







text \<open>
  The lines of the block of a section: an empty line, the opening of the division, the
  heading, the opening of the list, a line for each of the first 10 items, the closing of
  the list, the closing of the division and an empty line.
\<close>

definition block_lines :: "string \<Rightarrow> string list \<Rightarrow> string list" where
  "block_lines name items =
     [[], indent 24 @ ''<div class=\"section\">'',
      indent 28 @ ''<h3 class=\"section-title\">'' @ escape_html name @ ''</h3>'',
      indent 28 @ ''<ul>''] @
     map (\<lambda>item. indent 32 @ ''<li>'' @ format_item item @ ''</li>'') (take 10 items) @
     [indent 28 @ ''</ul>'', indent 24 @ ''</div>'', []]"

section \<open>The parser never fails\<close>

lemma parse_line_total:
  assumes "section_known st"
  shows "\<exists>st'. parse_line st line = Inr st' \<and> section_known st'"
proof -
  obtain rs cr cs where st: "st = (rs, cr, cs)" by (cases st)
  show ?thesis
  proof (cases "release_match line")
    case (Some vd)
    then show ?thesis
      by (cases vd) (simp add: st parse_line_def section_known_def)
  next
    case None
    note nomatch = this
    show ?thesis
    proof (cases cr)
      case None
      then show ?thesis using nomatch assms
        by (simp add: st parse_line_def section_known_def split: option.splits)
    next
      case (Some r)
      note open_rel = this
      show ?thesis
      proof (cases "section_match line")
        case (Some g)
        then show ?thesis using nomatch open_rel
          by (simp add: st parse_line_def section_known_def has_key_def update_conv')
      next
        case None
        show ?thesis
        proof (cases cs)
          case None
          then show ?thesis using nomatch open_rel \<open>section_match line = None\<close>
            by (simp add: st parse_line_def section_known_def)
        next
          case (Some name)
          then obtain items where "map_of (sections r) name = Some items"
            using assms open_rel by (auto simp: st section_known_def has_key_def)
          then show ?thesis using nomatch open_rel Some \<open>section_match line = None\<close>
            by (simp add: st parse_line_def section_known_def append_item_def has_key_def
                  update_conv')
        qed
      qed
    qed
  qed
qed

lemma parse_loop_total:
  "section_known st \<Longrightarrow> \<exists>st'. parse_loop st lines = Inr st' \<and> section_known st'"
proof (induction lines arbitrary: st)
  case Nil
  then show ?case by simp
next
  case (Cons line lines)
  from parse_line_total [OF Cons.prems, of line]
  obtain st1 where "parse_line st line = Inr st1" "section_known st1" by blast
  with Cons.IH [of st1] show ?case by simp
qed

lemma parse_lines_total: "\<exists>rs. parse_lines lines = Inr rs"
proof -
  have "section_known ([], None, None)" by (simp add: section_known_def)
  from parse_loop_total [OF this, of lines]
  obtain st' where "parse_loop ([], None, None) lines = Inr st'" by blast
  then show ?thesis by (cases st') (simp add: parse_lines_def)
qed

lemma parse_loop_append:
  "parse_loop st (xs @ ys) =
     (case parse_loop st xs of Inl e \<Rightarrow> Inl e | Inr st' \<Rightarrow> parse_loop st' ys)"
  by (induction xs arbitrary: st) (auto split: sum.splits)

section \<open>One record for each release header\<close>

lemma parse_line_headers:
  assumes "parse_line st line = Inr st'"
  shows "headers st' = headers st @ (case release_match line of None \<Rightarrow> [] | Some vd \<Rightarrow> [vd])"
  using assms
  by (cases st)
     (auto simp: parse_line_def headers_def close_release_def append_item_def
           split: option.splits if_splits sum.splits prod.splits)

lemma parse_loop_headers:
  "parse_loop st lines = Inr st' \<Longrightarrow>
   headers st' = headers st @ List.map_filter release_match lines"
proof (induction lines arbitrary: st)
  case Nil
  then show ?case by (simp add: List.map_filter_simps)
next
  case (Cons line lines)
  then obtain st1 where 1: "parse_line st line = Inr st1" and 2: "parse_loop st1 lines = Inr st'"
    by (auto split: sum.splits)
  from Cons.IH [OF 2] parse_line_headers [OF 1] show ?case
    by (simp add: List.map_filter_simps split: option.splits)
qed

lemma length_map_filter:
  "length (List.map_filter f xs) = length (filter (\<lambda>x. f x \<noteq> None) xs)"
  by (induction xs) (auto simp: List.map_filter_simps split: option.splits)

text \<open>
  Claim C1. For every document the parser returns one record for each line that matches
  the release header pattern, in the order of the lines: the versions and dates of the
  records are the groups of the matching lines, one after the other, and the number of
  records is the number of matching lines.
\<close>

theorem parse_changelog_one_record_per_header:
  "\<exists>rs. parse_changelog content = Inr rs \<and>
        map (\<lambda>r. (version r, date r)) rs = List.map_filter release_match (split_lines content) \<and>
        length rs = length (filter (\<lambda>line. release_match line \<noteq> None) (split_lines content))"
proof -
  obtain rs where rs: "parse_lines (split_lines content) = Inr rs"
    using parse_lines_total by blast
  then obtain st' where st': "parse_loop ([], None, None) (split_lines content) = Inr st'"
    and out: "rs = (case st' of (releases, cr, cs) \<Rightarrow> close_release releases cr)"
    by (auto simp: parse_lines_def split: sum.splits prod.splits)
  have "headers st' = List.map_filter release_match (split_lines content)"
    using parse_loop_headers [OF st'] by (simp add: headers_def close_release_def)
  then have m: "map (\<lambda>r. (version r, date r)) rs =
      List.map_filter release_match (split_lines content)"
    using out by (cases st') (simp add: headers_def)
  have "length rs = length (List.map_filter release_match (split_lines content))"
    using m by (metis length_map)
  then show ?thesis using rs m by (simp add: parse_changelog_def length_map_filter)
qed

theorem parse_changelog_one_record_per_header_witness:
  "\<exists>rs. parse_changelog ''## [0.2] - 2025-12-13\<newline>### Added\<newline>- a\<newline>## [0.1] - 2025-11-02 x'' = Inr rs \<and>
        map (\<lambda>r. (version r, date r)) rs = [(''0.2'', ''2025-12-13''), (''0.1'', ''2025-11-02'')] \<and>
        length rs = 2"
  using parse_changelog_one_record_per_header
    [of "''## [0.2] - 2025-12-13\<newline>### Added\<newline>- a\<newline>## [0.1] - 2025-11-02 x''"]
  by (simp add: List.map_filter_simps release_match_def is_digit_def numeral_2_eq_2)

section \<open>Lines without a release or a section are dropped\<close>

lemma parse_line_dropped:
  assumes "release_match line = None"
    and "cr = None \<or> (section_match line = None \<and> \<not> truthy cs)"
  shows "parse_line (rs, cr, cs) line = Inr (rs, cr, cs)"
  using assms
  by (auto simp: parse_line_def truthy_def split: option.splits)

lemma parse_loop_dropped:
  assumes "\<forall>l \<in> set ls. release_match l = None \<and> (cr = None \<or> (section_match l = None \<and> \<not> truthy cs))"
  shows "parse_loop (rs, cr, cs) ls = Inr (rs, cr, cs)"
  using assms by (induction ls) (simp_all add: parse_line_dropped)

lemma parse_line_release:
  "release_match h = Some (v, d) \<Longrightarrow>
   parse_line (rs, cr, cs) h =
     Inr (close_release rs cr, Some \<lparr>version = v, date = d, title = [], tags = [], sections = []\<rparr>, None)"
  by (simp add: parse_line_def)

text \<open>
  Claim C7. The parser raises no error on any text: it always returns a sequence of
  records. A line that is no release header leaves the state of the loop as it is when
  no record is open, and so does a line that is neither a release header nor a section
  header when no section is current (none, or one with an empty name). So the lines
  before the first release header do not show in the result, and neither do the lines
  between a release header and the first section header that follows it.
\<close>

theorem parse_changelog_never_fails:
  "(\<exists>rs. parse_changelog content = Inr rs) \<and>
   (\<forall>rs cr cs line.
      release_match line = None \<and> (cr = None \<or> (section_match line = None \<and> \<not> truthy cs)) \<longrightarrow>
      parse_line (rs, cr, cs) line = Inr (rs, cr, cs)) \<and>
   (\<forall>pre rest.
      (\<forall>l \<in> set pre. release_match l = None) \<longrightarrow> parse_lines (pre @ rest) = parse_lines rest) \<and>
   (\<forall>pre h body rest.
      release_match h \<noteq> None \<and> (\<forall>l \<in> set body. release_match l = None \<and> section_match l = None) \<longrightarrow>
      parse_lines (pre @ h # body @ rest) = parse_lines (pre @ h # rest))"
proof (intro conjI allI impI)
  show "\<exists>rs. parse_changelog content = Inr rs"
    using parse_lines_total by (simp add: parse_changelog_def)
next
  fix rs :: "release list" and cr :: "release option" and cs line
  assume "release_match line = None \<and> (cr = None \<or> (section_match line = None \<and> \<not> truthy cs))"
  then show "parse_line (rs, cr, cs) line = Inr (rs, cr, cs)"
    by (simp add: parse_line_dropped)
next
  fix pre rest :: "string list"
  assume "\<forall>l \<in> set pre. release_match l = None"
  then have "parse_loop ([], None, None) pre = Inr ([], None, None)"
    by (simp add: parse_loop_dropped)
  then show "parse_lines (pre @ rest) = parse_lines rest"
    by (simp add: parse_lines_def parse_loop_append)
next
  fix pre body rest :: "string list" and h
  assume a: "release_match h \<noteq> None \<and> (\<forall>l \<in> set body. release_match l = None \<and> section_match l = None)"
  then obtain v d where h: "release_match h = Some (v, d)" by auto
  have body: "parse_loop (rs, Some r, None) body = Inr (rs, Some r, None)" for rs r
    using a by (simp add: parse_loop_dropped truthy_def)
  have eq: "parse_loop st (h # body @ rest) = parse_loop st (h # rest)" for st
    by (cases st) (simp add: parse_line_release [OF h] parse_loop_append body)
  have "parse_loop ([], None, None) (pre @ h # body @ rest) =
        parse_loop ([], None, None) (pre @ h # rest)"
  proof (cases "parse_loop ([], None, None) pre")
    case (Inl e)
    then show ?thesis by (simp add: parse_loop_append)
  next
    case (Inr s1)
    then show ?thesis using eq [of s1] by (simp only: parse_loop_append sum.case)
  qed
  then show "parse_lines (pre @ h # body @ rest) = parse_lines (pre @ h # rest)"
    by (simp only: parse_lines_def)
qed

theorem parse_changelog_never_fails_witness:
  "parse_changelog ''### Added\<newline>- stray'' = Inr [] \<and>
   parse_lines [''## [1] - 2025-01-01'', ''- early'', ''### Added''] =
   parse_lines [''## [1] - 2025-01-01'', ''### Added'']"
proof -
  note t = parse_changelog_never_fails [of "''### Added\<newline>- stray''"]
  have "\<forall>l \<in> set [''### Added'', ''- stray'']. release_match l = None"
    by (simp add: release_match_def)
  with t have "parse_lines ([''### Added'', ''- stray''] @ []) = parse_lines []"
    by blast
  then have 1: "parse_changelog ''### Added\<newline>- stray'' = Inr []"
    by (simp add: parse_changelog_def parse_lines_def close_release_def)
  have "release_match ''## [1] - 2025-01-01'' \<noteq> None \<and>
        (\<forall>l \<in> set [''- early'']. release_match l = None \<and> section_match l = None)"
    by (simp add: release_match_def section_match_def is_digit_def Let_def)
  with t have "parse_lines ([] @ ''## [1] - 2025-01-01'' # [''- early''] @ [''### Added'']) =
      parse_lines ([] @ ''## [1] - 2025-01-01'' # [''### Added''])"
    by blast
  with 1 show ?thesis by simp
qed

section \<open>The fields of a parsed record\<close>

lemma last_dropWhile_eq: "dropWhile P xs \<noteq> [] \<Longrightarrow> last (dropWhile P xs) = last xs"
  by (induction xs) (auto split: if_splits)

lemma trimmed_nonempty: "s \<noteq> [] \<Longrightarrow> trimmed s = (\<not> isspace (hd s) \<and> \<not> isspace (last s))"
  by (cases s) (simp_all add: trimmed_def)

lemma strip_trimmed: "trimmed (strip s)"
proof -
  define t where "t = dropWhile isspace s"
  define u where "u = dropWhile isspace (rev t)"
  have s: "strip s = rev u" by (simp add: strip_def t_def u_def)
  show ?thesis
  proof (cases "u = []")
    case True
    then show ?thesis by (simp add: s trimmed_def)
  next
    case False
    then have hu: "\<not> isspace (hd u)" unfolding u_def by (rule hd_dropWhile)
    from False have "rev t \<noteq> []" by (auto simp: u_def)
    then have tne: "t \<noteq> []" by simp
    then have ht: "\<not> isspace (hd t)" unfolding t_def by (rule hd_dropWhile)
    have "last u = last (rev t)" using False unfolding u_def by (rule last_dropWhile_eq)
    also have "\<dots> = hd t" using tne by (simp add: last_rev)
    finally have lu: "\<not> isspace (last u)" using ht by simp
    have "hd (rev u) = last u" using False by (simp add: hd_rev)
    moreover have "last (rev u) = hd u" using False by (simp add: last_rev)
    ultimately show ?thesis using False hu lu
      by (simp add: s trimmed_nonempty)
  qed
qed

lemma date_token_length: "date_token d \<Longrightarrow> length d = 10"
  by (induction d rule: date_token.induct) simp_all

lemma release_match_Some:
  assumes "release_match line = Some (v, d)"
  shows "v \<noteq> [] \<and> CHR '']'' \<notin> set v \<and> length d = 10 \<and> date_token d"
proof -
  from assms have v: "v = takeWhile (\<lambda>c. c \<noteq> CHR '']'') (drop 4 line)" and "v \<noteq> []" and "date_token d"
    by (auto simp: release_match_def Let_def split: if_splits)
  moreover from v have "CHR '']'' \<notin> set v" by (auto dest: set_takeWhileD)
  ultimately show ?thesis by (simp add: date_token_length)
qed

lemma set_update_cases:
  "(n, its) \<in> set (AList.update k v al) \<Longrightarrow> (n, its) = (k, v) \<or> (n, its) \<in> set al"
  by (induction al) (auto split: if_splits)

lemma parse_line_well_formed:
  assumes "parse_line st line = Inr st'" and "all_well_formed lines st" and "line \<in> set lines"
  shows "all_well_formed lines st'"
proof -
  obtain rs cr cs where st: "st = (rs, cr, cs)" by (cases st)
  show ?thesis
  proof (cases "release_match line")
    case (Some vd)
    obtain v d where vd: "vd = (v, d)" by (cases vd)
    from release_match_Some [of line v d] Some vd
    have "well_formed lines \<lparr>version = v, date = d, title = [], tags = [], sections = []\<rparr>"
      by (simp add: well_formed_def)
    then show ?thesis using assms Some vd
      by (auto simp: st parse_line_def all_well_formed_def close_release_def split: option.splits)
  next
    case None
    note nomatch = this
    show ?thesis
    proof (cases cr)
      case None
      then show ?thesis using nomatch assms
        by (auto simp: st parse_line_def split: option.splits)
    next
      case (Some r)
      note open_rel = this
      have wr: "well_formed lines r" using assms(2) open_rel
        by (simp add: st all_well_formed_def close_release_def)
      have allsec: "trimmed item \<and> item_of lines item"
        if "(n, its) \<in> set (sections r)" and "item \<in> set its" for n its item
        using wr that by (fastforce simp: well_formed_def)
      have keep: "all_well_formed lines (rs, Some r', cs')" if "well_formed lines r'" for r' cs'
        using assms(2) open_rel that by (simp add: st all_well_formed_def close_release_def)
      show ?thesis
      proof (cases "section_match line")
        case (Some g)
        have "well_formed lines (r\<lparr>sections := AList.update (strip g) [] (sections r)\<rparr>)"
          using wr by (auto simp: well_formed_def dest!: set_update_cases)
        from keep [OF this] show ?thesis using nomatch open_rel Some assms(1)
          by (auto simp: st parse_line_def)
      next
        case None
        show ?thesis
        proof (cases cs)
          case None
          then show ?thesis using nomatch open_rel \<open>section_match line = None\<close> assms
            by (auto simp: st parse_line_def truthy_def)
        next
          case (Some name)
          show ?thesis
          proof (cases "prefix ''- '' line \<and> truthy cs")
            case False
            then show ?thesis using nomatch open_rel Some \<open>section_match line = None\<close> assms
              by (auto simp: st parse_line_def)
          next
            case True
            then obtain r' where r': "append_item r name (strip (drop 2 line)) = Inr r'"
              and st': "st' = (rs, Some r', cs)"
              using nomatch open_rel Some \<open>section_match line = None\<close> assms(1)
              by (auto simp: st parse_line_def split: sum.splits)
            from r' obtain items where items: "map_of (sections r) name = Some items"
              and r'_eq: "r' = r\<lparr>sections := AList.update name (items @ [strip (drop 2 line)]) (sections r)\<rparr>"
              by (auto simp: append_item_def split: option.splits)
            have old: "(name, items) \<in> set (sections r)" using items by (rule map_of_SomeD)
            have new: "trimmed (strip (drop 2 line)) \<and> item_of lines (strip (drop 2 line))"
              using True assms(3) by (auto simp: strip_trimmed item_of_def)
            have "well_formed lines r'"
              unfolding well_formed_def
            proof (intro conjI ballI)
              fix p assume p: "p \<in> set (sections r')"
              obtain n its where nits: "p = (n, its)" by (cases p)
              from p nits r'_eq have "(n, its) = (name, items @ [strip (drop 2 line)]) \<or> (n, its) \<in> set (sections r)"
                by (auto dest!: set_update_cases)
              then have "\<forall>item \<in> set its. trimmed item \<and> item_of lines item"
                using allsec old new by auto
              then show "case p of (name, items) \<Rightarrow> \<forall>item \<in> set items. trimmed item \<and> item_of lines item"
                by (simp add: nits)
            qed (use wr r'_eq in \<open>simp_all add: well_formed_def\<close>)
            from keep [OF this] show ?thesis by (simp add: st')
          qed
        qed
      qed
    qed
  qed
qed

lemma parse_loop_well_formed:
  "parse_loop st ls = Inr st' \<Longrightarrow> all_well_formed lines st \<Longrightarrow> set ls \<subseteq> set lines \<Longrightarrow>
   all_well_formed lines st'"
proof (induction ls arbitrary: st)
  case Nil
  then show ?case by simp
next
  case (Cons line ls)
  then obtain st1 where 1: "parse_line st line = Inr st1" and 2: "parse_loop st1 ls = Inr st'"
    by (auto split: sum.splits)
  from parse_line_well_formed [OF 1 Cons.prems(2)] Cons.prems(3)
  have "all_well_formed lines st1" by simp
  from Cons.IH [OF 2 this] Cons.prems(3) show ?case by simp
qed

text \<open>
  Claim C10. In every record that the parser returns the version is not empty and holds
  no closing bracket, the date is ten characters of the shape of four digits, a hyphen,
  two digits, a hyphen and two digits, and every item of every section has no white
  space at either end and is the trimmed rest of a line of the document behind its dash
  and blank.
\<close>

theorem parsed_records_well_formed:
  assumes "parse_changelog content = Inr rs" and "r \<in> set rs"
  shows "well_formed (split_lines content) r"
proof -
  from assms(1) obtain st' where st': "parse_loop ([], None, None) (split_lines content) = Inr st'"
    and out: "rs = (case st' of (releases, cr, cs) \<Rightarrow> close_release releases cr)"
    by (auto simp: parse_changelog_def parse_lines_def split: sum.splits prod.splits)
  have "all_well_formed (split_lines content) ([], None, None)"
    by (simp add: all_well_formed_def close_release_def)
  from parse_loop_well_formed [OF st' this]
  have "all_well_formed (split_lines content) st'" by simp
  then show ?thesis using out assms(2) by (cases st') (auto simp: all_well_formed_def)
qed

theorem parsed_records_well_formed_witness:
  "well_formed (split_lines ''## [0.2] - 2025-12-13\<newline>### Added\<newline>-   a b  '')
     \<lparr>version = ''0.2'', date = ''2025-12-13'', title = [], tags = [],
      sections = [(''Added'', [''a b''])]\<rparr>"
proof -
  have "parse_changelog ''## [0.2] - 2025-12-13\<newline>### Added\<newline>-   a b  '' =
          Inr [\<lparr>version = ''0.2'', date = ''2025-12-13'', title = [], tags = [],
                sections = [(''Added'', [''a b''])]\<rparr>]"
    by (simp add: parse_changelog_def parse_lines_def parse_line_def release_match_def
          section_match_def is_digit_def Let_def strip_def isspace_def truthy_def
          close_release_def append_item_def)
  from parsed_records_well_formed [OF this] show ?thesis by simp
qed

section \<open>A section header seen again\<close>

lemma label_known_body_step: "label_known p \<Longrightarrow> label_known (body_step p line)"
  by (cases p) (auto simp: label_known_def body_step_def update_conv' split: option.splits)

lemma parse_line_body_step:
  assumes "release_match line = None" and "label_known (sections r, cs)"
  shows "parse_line (rs, Some r, cs) line =
         Inr (rs, Some (r\<lparr>sections := fst (body_step (sections r, cs) line)\<rparr>),
              snd (body_step (sections r, cs) line))"
  using assms
  by (auto simp: parse_line_def append_item_def truthy_def label_known_def body_step_def
        split: option.splits)

lemma parse_loop_body:
  assumes "\<forall>l \<in> set body. release_match l = None" and "label_known (sections r, cs)"
  shows "parse_loop (rs, Some r, cs) body =
         Inr (rs, Some (r\<lparr>sections := fst (foldl body_step (sections r, cs) body)\<rparr>),
              snd (foldl body_step (sections r, cs) body))"
  using assms
proof (induction body arbitrary: r cs)
  case Nil
  then show ?case by simp
next
  case (Cons line body)
  obtain secs1 cs1 where step: "body_step (sections r, cs) line = (secs1, cs1)"
    by (cases "body_step (sections r, cs) line")
  have "label_known (secs1, cs1)"
    using label_known_body_step [OF Cons.prems(2), of line] unfolding step .
  then have k1: "label_known (sections (r\<lparr>sections := secs1\<rparr>), cs1)" by simp
  from Cons.prems(1) have rest: "\<forall>l \<in> set body. release_match l = None" by simp
  from Cons.prems(1) have "release_match line = None" by simp
  from parse_line_body_step [OF this Cons.prems(2), of rs]
  have "parse_loop (rs, Some r, cs) (line # body) = parse_loop (rs, Some (r\<lparr>sections := secs1\<rparr>), cs1) body"
    by (simp add: step)
  also note Cons.IH [OF rest k1]
  finally show ?case by (simp add: step)
qed

lemma map_fst_update:
  "map fst (AList.update k v al) = (if k \<in> set (map fst al) then map fst al else map fst al @ [k])"
  by (induction al) auto

lemma first_seen_append:
  "first_seen (xs @ ys) = first_seen xs @ filter (\<lambda>y. y \<notin> set xs) (first_seen ys)"
proof (induction xs)
  case Nil
  then show ?case by simp
next
  case (Cons x xs)
  have "filter (\<lambda>y. y \<noteq> x) (filter (\<lambda>y. y \<notin> set xs) (first_seen ys)) =
        filter (\<lambda>y. y \<notin> set (x # xs)) (first_seen ys)"
    by (auto intro: filter_cong)
  with Cons show ?case by simp
qed

lemma set_first_seen: "set (first_seen xs) = set xs"
  by (induction xs) auto

lemma distinct_first_seen: "distinct (first_seen xs)"
  by (induction xs) (auto simp: set_first_seen)

lemma first_seen_distinct: "distinct xs \<Longrightarrow> first_seen xs = xs"
  by (induction xs) (auto simp: set_first_seen filter_id_conv)

lemma section_label_item: "prefix ''- '' line \<Longrightarrow> section_match line = None"
  by (auto simp: section_match_def prefix_def)

lemma map_of_key: "map_of al k = Some v \<Longrightarrow> k \<in> fst ` set al"
  by (force dest: map_of_SomeD)

lemma body_keys:
  assumes "distinct (map fst secs)"
  shows "map fst (fst (foldl body_step (secs, cs) body)) =
         first_seen (map fst secs @ List.map_filter section_label body) \<and>
         distinct (map fst (fst (foldl body_step (secs, cs) body)))"
  using assms
proof (induction body arbitrary: secs cs)
  case Nil
  then show ?case by (simp add: List.map_filter_simps first_seen_distinct)
next
  case (Cons line body)
  obtain secs1 cs1 where step: "body_step (secs, cs) line = (secs1, cs1)"
    by (cases "body_step (secs, cs) line")
  have keys1: "map fst secs1 =
      (case section_label line of None \<Rightarrow> map fst secs
       | Some l \<Rightarrow> if l \<in> set (map fst secs) then map fst secs else map fst secs @ [l])"
    using step
    by (force simp: body_step_def section_label_def map_fst_update map_of_eq_None_iff map_of_key
             split: option.splits if_splits)
  then have d1: "distinct (map fst secs1)" using Cons.prems
    by (auto split: option.splits if_splits)
  have "first_seen (map fst secs1 @ List.map_filter section_label body) =
        first_seen (map fst secs @ List.map_filter section_label (line # body))"
  proof (cases "section_label line")
    case None
    then show ?thesis using keys1 by (simp add: List.map_filter_simps)
  next
    case (Some l)
    show ?thesis
    proof (cases "l \<in> set (map fst secs)")
      case True
      have "filter (\<lambda>y. y \<notin> set (map fst secs)) (filter (\<lambda>y. y \<noteq> l) ys) =
            filter (\<lambda>y. y \<notin> set (map fst secs)) ys" for ys
        using True by (auto intro: filter_cong)
      then show ?thesis using keys1 Some True
        by (simp add: List.map_filter_simps first_seen_append)
    next
      case False
      then show ?thesis using keys1 Some
        by (simp add: List.map_filter_simps)
    qed
  qed
  with Cons.IH [OF d1, of cs1] show ?case by (simp add: step distinct_first_seen)
qed

lemma listed_items_Cons:
  "listed_items (line # lines) =
     (if section_match line \<noteq> None then []
      else if prefix ''- '' line then strip (drop 2 line) # listed_items lines
      else listed_items lines)"
  by (simp add: listed_items_def)

lemma body_contents:
  "label_known (secs, cs) \<Longrightarrow>
   map_of (fst (foldl body_step (secs, cs) body)) name = contents (secs, cs) body name"
proof (induction body arbitrary: secs cs)
  case Nil
  then show ?case
    by (cases "map_of secs name") (simp_all add: contents_def listed_items_def)
next
  case (Cons line body)
  obtain secs1 cs1 where step: "body_step (secs, cs) line = (secs1, cs1)"
    by (cases "body_step (secs, cs) line")
  have k1: "label_known (secs1, cs1)"
    using label_known_body_step [OF Cons.prems, of line] unfolding step .
  have "contents (secs1, cs1) body name = contents (secs, cs) (line # body) name"
  proof (cases "after_last name body")
    case (Some rest)
    then show ?thesis by (simp add: contents_def)
  next
    case None
    note nolater = this
    show ?thesis
    proof (cases "section_match line")
      case (Some g)
      then have s1: "secs1 = AList.update (strip g) [] secs" "cs1 = Some (strip g)"
        using step by (simp_all add: body_step_def)
      show ?thesis
      proof (cases "strip g = name")
        case True
        then show ?thesis using nolater Some s1
          by (simp add: contents_def section_label_def update_conv')
      next
        case False
        then show ?thesis using nolater Some s1
          by (cases "map_of secs name")
             (simp_all add: contents_def section_label_def update_conv' listed_items_Cons)
      qed
    next
      case None
      note nosec = this
      show ?thesis
      proof (cases "\<exists>c items. cs = Some c \<and> map_of secs c = Some items \<and> prefix ''- '' line \<and> c \<noteq> []")
        case True
        then obtain c items where c: "cs = Some c" "map_of secs c = Some items"
          "prefix ''- '' line" "c \<noteq> []" by blast
        then have s1: "secs1 = AList.update c (items @ [strip (drop 2 line)]) secs" "cs1 = cs"
          using step nosec by (simp_all add: body_step_def)
        show ?thesis using nolater nosec c s1
          by (simp add: contents_def section_label_def update_conv' listed_items_Cons)
      next
        case False
        then have s1: "secs1 = secs" "cs1 = cs"
          using step nosec by (auto simp: body_step_def split: option.splits if_splits)
        have "listed_items (line # body) = listed_items body" if "cs = Some name" "name \<noteq> []"
          using that False nosec Cons.prems
          by (auto simp: listed_items_Cons label_known_def)
        then show ?thesis using nolater nosec s1
          by (auto simp: contents_def section_label_def)
      qed
    qed
  qed
  with Cons.IH [OF k1] show ?case by (simp add: step)
qed

lemma close_release_append: "close_release (xs @ rs) cr = xs @ close_release rs cr"
  by (simp add: close_release_def split: option.splits)

lemma parse_line_prefix:
  "parse_line (xs @ rs, cr, cs) line =
     (case parse_line (rs, cr, cs) line of
        Inl e \<Rightarrow> Inl e
      | Inr (rs', cr', cs') \<Rightarrow> Inr (xs @ rs', cr', cs'))"
  by (auto simp: parse_line_def close_release_append split: option.splits sum.splits)

lemma parse_loop_prefix:
  "parse_loop (xs @ rs, cr, cs) lines =
     (case parse_loop (rs, cr, cs) lines of
        Inl e \<Rightarrow> Inl e
      | Inr (rs', cr', cs') \<Rightarrow> Inr (xs @ rs', cr', cs'))"
proof (induction lines arbitrary: rs cr cs)
  case Nil
  then show ?case by simp
next
  case (Cons line lines)
  show ?case
  proof (cases "parse_line (rs, cr, cs) line")
    case (Inl e)
    then show ?thesis by (simp add: parse_line_prefix)
  next
    case (Inr st1)
    then show ?thesis by (cases st1) (simp add: parse_line_prefix Cons.IH)
  qed
qed

lemma parse_lines_from:
  "\<exists>rs2. parse_lines post = Inr rs2 \<and>
         (post = [] \<or> release_match (hd post) \<noteq> None \<longrightarrow>
          (case parse_loop (rs, cr, cs) post of
             Inl e \<Rightarrow> False
           | Inr (rs', cr', cs') \<Rightarrow> close_release rs' cr' = close_release rs cr @ rs2))"
proof (cases post)
  case Nil
  then show ?thesis by (simp add: parse_lines_def close_release_def)
next
  case (Cons h' t)
  obtain rs2 where rs2: "parse_lines post = Inr rs2" using parse_lines_total by blast
  show ?thesis
  proof (cases "release_match h'")
    case None
    then show ?thesis using rs2 Cons by simp
  next
    case (Some vd)
    obtain v d where vd: "vd = (v, d)" by (cases vd)
    define fresh where "fresh = \<lparr>version = v, date = d, title = [], tags = [], sections = []\<rparr>"
    from rs2 obtain rsA crA csA where A: "parse_loop ([], Some fresh, None) t = Inr (rsA, crA, csA)"
      and out: "rs2 = close_release rsA crA"
      using Cons Some vd
      by (auto simp: parse_lines_def parse_line_release close_release_def fresh_def
               split: sum.splits)
    have "parse_loop (rs, cr, cs) post = parse_loop (close_release rs cr @ [], Some fresh, None) t"
      using Cons Some vd by (simp add: parse_line_release fresh_def)
    also have "\<dots> = Inr (close_release rs cr @ rsA, crA, csA)"
      by (simp only: parse_loop_prefix A sum.case prod.case)
    finally show ?thesis using rs2 out by (simp add: close_release_append)
  qed
qed

text \<open>
  Claim C4, amended. Take any release of any document: its header \<open>h\<close>, the lines
  \<open>body\<close> up to the next release header or the end, the lines \<open>pre\<close> before and
  \<open>post\<close> behind. The record of the release stands between the records of \<open>pre\<close> and
  of \<open>post\<close>; its section names are the labels of the section headers of \<open>body\<close> in
  the order in which they are first seen; and for every label that is not empty, the
  section holds exactly the items listed after the last header of that label. A header
  that comes again hence empties its section and keeps its place.
\<close>

theorem repeated_section_last_wins:
  assumes "release_match h = Some (v, d)"
    and "\<forall>l \<in> set body. release_match l = None"
    and "post = [] \<or> release_match (hd post) \<noteq> None"
  shows "\<exists>rs1 rs2 secs.
           parse_lines pre = Inr rs1 \<and> parse_lines post = Inr rs2 \<and>
           parse_lines (pre @ h # body @ post) =
             Inr (rs1 @ \<lparr>version = v, date = d, title = [], tags = [], sections = secs\<rparr> # rs2) \<and>
           map fst secs = first_seen (List.map_filter section_label body) \<and>
           (\<forall>name. name \<noteq> [] \<longrightarrow>
                   map_of secs name = map_option listed_items (after_last name body))"
proof -
  define fresh where "fresh = \<lparr>version = v, date = d, title = [], tags = [], sections = []\<rparr>"
  define secs where "secs = fst (foldl body_step ([], None) body)"
  define cs' where "cs' = snd (foldl body_step ([], None) body)"
  obtain rs1 where rs1: "parse_lines pre = Inr rs1" using parse_lines_total by blast
  then obtain rs0 cr0 cs0 where pre: "parse_loop ([], None, None) pre = Inr (rs0, cr0, cs0)"
    and rs1_eq: "rs1 = close_release rs0 cr0"
    by (auto simp: parse_lines_def split: sum.splits)
  have k: "label_known (sections fresh, None)" by (simp add: label_known_def)
  have run: "parse_loop ([], None, None) (pre @ h # body @ post) =
             parse_loop (rs1, Some (fresh\<lparr>sections := secs\<rparr>), cs') post"
    using parse_loop_body [OF assms(2) k, of rs1]
    by (simp add: parse_loop_append pre parse_line_release [OF assms(1)] rs1_eq
          fresh_def secs_def cs'_def)
  from parse_lines_from [of post rs1 "Some (fresh\<lparr>sections := secs\<rparr>)" cs'] assms(3)
  obtain rs2 where rs2: "parse_lines post = Inr rs2"
    and fin: "case parse_loop (rs1, Some (fresh\<lparr>sections := secs\<rparr>), cs') post of
                Inl e \<Rightarrow> False
              | Inr (rs', cr', cs') \<Rightarrow>
                  close_release rs' cr' = close_release rs1 (Some (fresh\<lparr>sections := secs\<rparr>)) @ rs2"
    by blast
  have whole: "parse_lines (pre @ h # body @ post) =
      Inr (rs1 @ \<lparr>version = v, date = d, title = [], tags = [], sections = secs\<rparr> # rs2)"
    using fin unfolding parse_lines_def run
    by (auto simp: close_release_def fresh_def split: sum.splits)
  have keys: "map fst secs = first_seen (List.map_filter section_label body)"
    using body_keys [of "[]" None body] by (simp add: secs_def)
  have "map_of secs name = map_option listed_items (after_last name body)" if "name \<noteq> []" for name
    using body_contents [of "[]" None body name] that
    by (simp add: secs_def label_known_def contents_def split: option.splits)
  with rs1 rs2 whole keys show ?thesis by blast
qed

theorem repeated_section_last_wins_witness:
  "\<exists>secs. parse_changelog ''## [1] - 2025-01-01\<newline>### Added\<newline>- a\<newline>### Fixed\<newline>- b\<newline>### Added\<newline>- c'' =
            Inr [\<lparr>version = ''1'', date = ''2025-01-01'', title = [], tags = [], sections = secs\<rparr>] \<and>
          map fst secs = [''Added'', ''Fixed''] \<and>
          map_of secs ''Added'' = Some [''c''] \<and> map_of secs ''Fixed'' = Some [''b'']"
proof -
  have 1: "release_match ''## [1] - 2025-01-01'' = Some (''1'', ''2025-01-01'')"
    by (simp add: release_match_def is_digit_def Let_def)
  have 2: "\<forall>l \<in> set [''### Added'', ''- a'', ''### Fixed'', ''- b'', ''### Added'', ''- c''].
             release_match l = None"
    by (simp add: release_match_def)
  have 3: "([] :: string list) = [] \<or> release_match (hd []) \<noteq> None" by simp
  have sm: "section_match ''### Added'' = Some ''Added''" "section_match ''### Fixed'' = Some ''Fixed''"
     "section_match ''- a'' = None" "section_match ''- b'' = None" "section_match ''- c'' = None"
    by (simp_all add: section_match_def)
  have st: "strip ''Added'' = ''Added''" "strip ''Fixed'' = ''Fixed''"
    "strip ''a'' = ''a''" "strip ''b'' = ''b''" "strip ''c'' = ''c''"
    by (simp_all add: strip_def isspace_def)
  from repeated_section_last_wins [OF 1 2 3, of "[]"] obtain rs1 rs2 secs where
    a: "parse_lines [] = Inr rs1" "parse_lines [] = Inr rs2"
    and b: "parse_lines ([] @ ''## [1] - 2025-01-01'' #
               [''### Added'', ''- a'', ''### Fixed'', ''- b'', ''### Added'', ''- c''] @ []) =
            Inr (rs1 @ \<lparr>version = ''1'', date = ''2025-01-01'', title = [], tags = [], sections = secs\<rparr> # rs2)"
    and c: "map fst secs = first_seen (List.map_filter section_label
               [''### Added'', ''- a'', ''### Fixed'', ''- b'', ''### Added'', ''- c''])"
    and d: "\<forall>name. name \<noteq> [] \<longrightarrow> map_of secs name = map_option listed_items
               (after_last name [''### Added'', ''- a'', ''### Fixed'', ''- b'', ''### Added'', ''- c''])"
    by blast
  from a have "rs1 = []" "rs2 = []" by (simp_all add: parse_lines_def close_release_def)
  with b have "parse_changelog ''## [1] - 2025-01-01\<newline>### Added\<newline>- a\<newline>### Fixed\<newline>- b\<newline>### Added\<newline>- c'' =
            Inr [\<lparr>version = ''1'', date = ''2025-01-01'', title = [], tags = [], sections = secs\<rparr>]"
    by (simp add: parse_changelog_def)
  moreover from c have "map fst secs = [''Added'', ''Fixed'']"
    by (simp add: List.map_filter_simps section_label_def sm st)
  moreover from d have "map_of secs ''Added'' = Some [''c'']" "map_of secs ''Fixed'' = Some [''b'']"
    by (simp_all add: section_label_def sm st listed_items_def)
  ultimately show ?thesis by - (rule exI [of _ secs], simp)
qed

text \<open>
  Claim C4 as it is written fails for a header whose label is only white space: the label
  is stripped to the empty name, which is false in the condition of the item branch, so
  the items listed after it are dropped and the section stays empty.
\<close>

theorem blank_label_items_dropped:
  "parse_changelog ''## [1] - 2025-01-01\<newline>###  \<newline>- a\<newline>###  \<newline>- b'' =
     Inr [\<lparr>version = ''1'', date = ''2025-01-01'', title = [], tags = [], sections = [([], [])]\<rparr>] \<and>
   map_option listed_items (after_last [] [''###  '', ''- a'', ''###  '', ''- b'']) = Some [''b''] \<and>
   map_of [([], [])] [] \<noteq> map_option listed_items (after_last [] [''###  '', ''- a'', ''###  '', ''- b''])"
  by (simp add: parse_changelog_def parse_lines_def parse_line_def release_match_def
        section_match_def is_digit_def Let_def strip_def isspace_def truthy_def close_release_def
        section_label_def listed_items_def)

section \<open>The title of a release\<close>

lemma takeWhile_until:
  "\<forall>x \<in> set g. P x \<Longrightarrow> \<not> P c \<Longrightarrow> takeWhile P (g @ c # rest) = g \<and> dropWhile P (g @ c # rest) = c # rest"
  by (induction g) simp_all

lemma bold_match_span: "(\<exists>n. bold_match item = Some (g, n)) = bold_span item g"
proof
  assume "\<exists>n. bold_match item = Some (g, n)"
  then have p: "prefix ''**'' item" and g: "g = takeWhile (\<lambda>c. c \<noteq> CHR ''*'') (drop 2 item)"
    and ne: "g \<noteq> []" and q: "prefix ''**'' (dropWhile (\<lambda>c. c \<noteq> CHR ''*'') (drop 2 item))"
    by (auto simp: bold_match_def Let_def split: if_splits)
  from p have "item = ''**'' @ drop 2 item" by (auto simp: prefix_def)
  moreover have "drop 2 item = g @ dropWhile (\<lambda>c. c \<noteq> CHR ''*'') (drop 2 item)"
    by (simp add: g)
  moreover from q obtain rest where "dropWhile (\<lambda>c. c \<noteq> CHR ''*'') (drop 2 item) = ''**'' @ rest"
    by (auto simp: prefix_def)
  moreover have "CHR ''*'' \<notin> set g" using g by (auto dest: set_takeWhileD)
  ultimately show "bold_span item g" using ne unfolding bold_span_def by metis
next
  assume "bold_span item g"
  then obtain rest where item: "item = ''**'' @ g @ ''**'' @ rest" and ne: "g \<noteq> []"
    and star: "CHR ''*'' \<notin> set g"
    by (auto simp: bold_span_def)
  have "takeWhile (\<lambda>c. c \<noteq> CHR ''*'') (g @ CHR ''*'' # CHR ''*'' # rest) = g \<and>
        dropWhile (\<lambda>c. c \<noteq> CHR ''*'') (g @ CHR ''*'' # CHR ''*'' # rest) = CHR ''*'' # CHR ''*'' # rest"
    using star by (intro takeWhile_until) auto
  then show "\<exists>n. bold_match item = Some (g, n)"
    using ne by (simp add: item bold_match_def)
qed

lemma first_bold_none: "first_bold items = None \<longleftrightarrow> (\<forall>i \<in> set items. \<forall>g. \<not> bold_span i g)"
proof (induction items)
  case Nil
  then show ?case by simp
next
  case (Cons item items)
  show ?case
  proof (cases "bold_match item")
    case None
    then have "\<forall>g. \<not> bold_span item g" using bold_match_span [of item] by simp
    with None Cons show ?thesis by simp
  next
    case (Some gn)
    then have "bold_span item (fst gn)" using bold_match_span [of item "fst gn"] by (cases gn) auto
    with Some show ?thesis by (cases gn) auto
  qed
qed

lemma first_bold_found:
  assumes "\<forall>i \<in> set before. \<forall>g'. \<not> bold_span i g'" and "bold_span item g"
  shows "first_bold (before @ item # after) = Some g"
  using assms(1)
proof (induction before)
  case Nil
  from assms(2) obtain n where "bold_match item = Some (g, n)" using bold_match_span by blast
  then show ?case by simp
next
  case (Cons b before)
  then have "\<forall>g. \<not> bold_span b g" by simp
  then have "bold_match b = None" using bold_match_span [of b] by (cases "bold_match b") auto
  with Cons show ?case by simp
qed

text \<open>
  Claim C2. The title of a record follows three rules, the first that applies: when an
  item of the section \<^verbatim>\<open>Added\<close> begins with a bold span and no item before it does,
  the title is the text inside that span; when the section \<^verbatim>\<open>Added\<close> is not empty and
  no item begins with a bold span, the title is the first item, cut to its first 50
  characters with three dots behind when it is longer than 50 characters, and unchanged
  otherwise; when there is no section \<^verbatim>\<open>Added\<close> or it is empty, the title is
  \<^verbatim>\<open>Version\<close>, a blank and the version of the record.
\<close>

theorem get_title_rules:
  "(\<forall>before item after g.
      map_of (sections r) ''Added'' = Some (before @ item # after) \<and>
      (\<forall>i \<in> set before. \<forall>g'. \<not> bold_span i g') \<and> bold_span item g \<longrightarrow>
      get_title r = g) \<and>
   (\<forall>first others.
      map_of (sections r) ''Added'' = Some (first # others) \<and>
      (\<forall>i \<in> set (first # others). \<forall>g'. \<not> bold_span i g') \<longrightarrow>
      get_title r = (if length first > 50 then take 50 first @ ''...'' else first)) \<and>
   (map_of (sections r) ''Added'' = None \<or> map_of (sections r) ''Added'' = Some [] \<longrightarrow>
      get_title r = ''Version '' @ version r)"
proof (intro conjI allI impI)
  fix before item after g
  assume a: "map_of (sections r) ''Added'' = Some (before @ item # after) \<and>
      (\<forall>i \<in> set before. \<forall>g'. \<not> bold_span i g') \<and> bold_span item g"
  then have "first_bold (before @ item # after) = Some g" by (simp add: first_bold_found)
  with a show "get_title r = g"
    by (cases "before @ item # after") (simp_all add: get_title_def)
next
  fix first others
  assume a: "map_of (sections r) ''Added'' = Some (first # others) \<and>
      (\<forall>i \<in> set (first # others). \<forall>g'. \<not> bold_span i g')"
  then have "\<forall>i \<in> set (first # others). \<forall>g'. \<not> bold_span i g'" by (rule conjunct2)
  then have "first_bold (first # others) = None" by (simp only: first_bold_none)
  with a show "get_title r = (if length first > 50 then take 50 first @ ''...'' else first)"
    by (simp add: get_title_def)
next
  assume "map_of (sections r) ''Added'' = None \<or> map_of (sections r) ''Added'' = Some []"
  then show "get_title r = ''Version '' @ version r"
    by (auto simp: get_title_def)
qed

theorem get_title_rules_witness:
  "get_title \<lparr>version = ''0.1.9'', date = ''2025-12-13'', title = [], tags = [],
              sections = [(''Added'', [''plain'', ''**Auth module** added''])]\<rparr> = ''Auth module'' \<and>
   get_title \<lparr>version = ''0.1.9'', date = ''2025-12-13'', title = [], tags = [],
              sections = [(''Added'', [''plain''])]\<rparr> = ''plain'' \<and>
   get_title \<lparr>version = ''0.1.9'', date = ''2025-12-13'', title = [], tags = [],
              sections = [(''Fixed'', [''x''])]\<rparr> = ''Version 0.1.9''"
proof -
  have plain: "\<forall>i \<in> set [''plain'']. \<forall>g'. \<not> bold_span i g'" by (simp add: bold_span_def)
  have bold: "bold_span ''**Auth module** added'' ''Auth module''" by (simp add: bold_span_def)
  let ?r1 = "\<lparr>version = ''0.1.9'', date = ''2025-12-13'', title = [], tags = [],
              sections = [(''Added'', [''plain'', ''**Auth module** added''])]\<rparr>"
  let ?r2 = "\<lparr>version = ''0.1.9'', date = ''2025-12-13'', title = [], tags = [],
              sections = [(''Added'', [''plain''])]\<rparr>"
  let ?r3 = "\<lparr>version = ''0.1.9'', date = ''2025-12-13'', title = [], tags = [],
              sections = [(''Fixed'', [''x''])]\<rparr>"
  have "map_of (sections ?r1) ''Added'' = Some ([''plain''] @ ''**Auth module** added'' # [])" by simp
  with get_title_rules [of ?r1] plain bold have 1: "get_title ?r1 = ''Auth module''" by blast
  have "map_of (sections ?r2) ''Added'' = Some (''plain'' # [])" by simp
  with get_title_rules [of ?r2] plain have "get_title ?r2 = (if length ''plain'' > 50 then take 50 ''plain'' @ ''...'' else ''plain'')"
    by blast
  then have 2: "get_title ?r2 = ''plain''" by simp
  have "map_of (sections ?r3) ''Added'' = None" by simp
  with get_title_rules [of ?r3] have 3: "get_title ?r3 = ''Version 0.1.9''" by simp
  from 1 2 3 show ?thesis by (intro conjI)
qed


section \<open>The tags of a release\<close>

lemma str_in_sublist: "str_in sub s = sublist sub s"
  by (induction s) (simp_all add: sublist_Cons_right)

lemma topic_tag_first: "topic_tag content = first_topic content"
  by (simp add: topic_tag_def first_topic_def topic_groups_def)

lemma topic_cases:
  "first_topic content \<in> {[], [(''feature'', ''Authentication'')], [(''feature'', ''Resilience'')],
      [(''feature'', ''CQRS'')], [(''feature'', ''MCP'')], [(''feature'', ''Multi-Protocol'')],
      [(''feature'', ''Production-Ready'')], [(''feature'', ''Security'')]}"
  unfolding topic_tag_first [symmetric] topic_tag_def by simp

lemma topic_subseq:
  "subseq (first_topic content)
     [(''feature'', ''Authentication''), (''feature'', ''Resilience''), (''feature'', ''CQRS''),
      (''feature'', ''MCP''), (''feature'', ''Multi-Protocol''), (''feature'', ''Production-Ready''),
      (''feature'', ''Security'')]"
  using topic_cases [of content] by (elim insertE) simp_all

lemma base_subseq:
  "subseq ((if a then [(''new'', ''New'')] else []) @ (if b then [(''feature'', ''Changed'')] else []) @
           (if c then [(''fix'', ''Fixed'')] else []) @ (if d then [(''breaking'', ''Breaking'')] else []))
     [(''new'', ''New''), (''feature'', ''Changed''), (''fix'', ''Fixed''), (''breaking'', ''Breaking'')]"
  by (cases a; cases b; cases c; cases d) simp_all

text \<open>
  Claim C3. The tags of a record are the first four of this sequence: \<^verbatim>\<open>('new', 'New')\<close>
  when there is a section \<^verbatim>\<open>Added\<close>, \<^verbatim>\<open>('feature', 'Changed')\<close> when there is a section
  \<^verbatim>\<open>Changed\<close>, \<^verbatim>\<open>('fix', 'Fixed')\<close> when there is a section \<^verbatim>\<open>Fixed\<close>,
  \<^verbatim>\<open>('breaking', 'Breaking')\<close> when there is a section \<^verbatim>\<open>Breaking\<close> or the dump of the
  sections holds \<^verbatim>\<open>BREAKING\<close>, and the topic tag of the first keyword group that has a
  keyword in the dump in lower case. There is at most one topic tag, there are at most
  four tags, and the tags stand in the order of the priority list.
\<close>

theorem get_tags_priority:
  "get_tags r =
     take 4
       ((if has_key ''Added'' (sections r) then [(''new'', ''New'')] else []) @
        (if has_key ''Changed'' (sections r) then [(''feature'', ''Changed'')] else []) @
        (if has_key ''Fixed'' (sections r) then [(''fix'', ''Fixed'')] else []) @
        (if has_key ''Breaking'' (sections r) \<or> str_in ''BREAKING'' (repr_dict (sections r))
         then [(''breaking'', ''Breaking'')] else []) @
        first_topic (lower (repr_dict (sections r)))) \<and>
   length (first_topic content) \<le> 1 \<and>
   length (get_tags r) \<le> 4 \<and>
   subseq (get_tags r) tag_priority"
proof (intro conjI)
  let ?base = "(if has_key ''Added'' (sections r) then [(''new'', ''New'')] else []) @
        (if has_key ''Changed'' (sections r) then [(''feature'', ''Changed'')] else []) @
        (if has_key ''Fixed'' (sections r) then [(''fix'', ''Fixed'')] else []) @
        (if has_key ''Breaking'' (sections r) \<or> str_in ''BREAKING'' (repr_dict (sections r))
         then [(''breaking'', ''Breaking'')] else [])"
  let ?topic = "first_topic (lower (repr_dict (sections r)))"
  have eq: "get_tags r = take 4 (?base @ ?topic)"
    by (simp add: get_tags_def Let_def topic_tag_first)
  then show "get_tags r =
     take 4
       ((if has_key ''Added'' (sections r) then [(''new'', ''New'')] else []) @
        (if has_key ''Changed'' (sections r) then [(''feature'', ''Changed'')] else []) @
        (if has_key ''Fixed'' (sections r) then [(''fix'', ''Fixed'')] else []) @
        (if has_key ''Breaking'' (sections r) \<or> str_in ''BREAKING'' (repr_dict (sections r))
         then [(''breaking'', ''Breaking'')] else []) @
        first_topic (lower (repr_dict (sections r))))"
    by simp
  show "length (first_topic content) \<le> 1"
    using topic_cases [of content] by (elim insertE) simp_all
  show "length (get_tags r) \<le> 4" by (simp add: get_tags_def Let_def)
  have "subseq (?base @ ?topic) tag_priority"
    unfolding tag_priority_def
    using list_emb_append_mono [OF base_subseq topic_subseq] by simp
  moreover have "subseq (take 4 (?base @ ?topic)) (?base @ ?topic)"
    by (intro prefix_imp_subseq take_is_prefix)
  ultimately show "subseq (get_tags r) tag_priority"
    unfolding eq by (rule subseq_order.trans [rotated])
qed


theorem get_tags_priority_witness:
  "get_tags \<lparr>version = ''0.1.9'', date = ''2025-12-13'', title = [], tags = [],
             sections = [(''Added'', [''**Auth module** added''])]\<rparr> =
     [(''new'', ''New''), (''feature'', ''Authentication'')] \<and>
   subseq [(''new'', ''New''), (''feature'', ''Authentication'')] tag_priority"
proof -
  let ?r = "\<lparr>version = ''0.1.9'', date = ''2025-12-13'', title = [], tags = [],
             sections = [(''Added'', [''**Auth module** added''])]\<rparr>"
  note c = get_tags_priority [of ?r]
  have 1: "get_tags ?r = [(''new'', ''New''), (''feature'', ''Authentication'')]"
    by (rule trans [OF c [THEN conjunct1]]) code_simp
  have "subseq (get_tags ?r) tag_priority"
    by (rule c [THEN conjunct2, THEN conjunct2, THEN conjunct2])
  with 1 show ?thesis by (simp only: simp_thms)
qed

section \<open>Sections without items\<close>

lemma sections_html_acc:
  "sections_html acc secs =
     acc @ concat (map (\<lambda>(name, items). section_block name items)
                    (filter (\<lambda>(name, items). items \<noteq> []) secs))"
  by (induction acc secs rule: sections_html.induct) simp_all


lemma tail_piece: "t = pre @ m \<Longrightarrow> a @ t = (a @ pre) @ m"
  by simp

lemma tail_start: "m = [] @ m"
  by simp

text \<open>
  Claim C5. A record whose sections hold the key \<^verbatim>\<open>Breaking\<close> with no items has the
  tag \<^verbatim>\<open>('breaking', 'Breaking')\<close>, and the sections rendered for it are the blocks of the
  sections other than \<^verbatim>\<open>Breaking\<close> that have items; the fragment of the release ends
  with these blocks and the closing lines of the fragment. For any sections, the rendered
  text is made of the blocks of the sections that have items, in their order: a section
  with no items is skipped.
\<close>

theorem empty_breaking_tagged_not_rendered:
  assumes "map_of (sections r) ''Breaking'' = Some []" and "distinct (map fst (sections r))"
  shows "(''breaking'', ''Breaking'') \<in> set (get_tags r) \<and>
         sections_html [] (sections r) =
           concat (map (\<lambda>(name, items). section_block name items)
                    (filter (\<lambda>(name, items). name \<noteq> ''Breaking'' \<and> items \<noteq> []) (sections r))) \<and>
         (\<exists>pre. generate_release_html r =
            pre @
            concat (map (\<lambda>(name, items). section_block name items)
                     (filter (\<lambda>(name, items). name \<noteq> ''Breaking'' \<and> items \<noteq> []) (sections r))) @
            ''\<newline>'' @ indent 20 @ ''</div>\<newline>'' @ indent 16 @ ''</div>\<newline>'') \<and>
         sections_html [] secs =
           concat (map (\<lambda>(name, items). section_block name items)
                    (filter (\<lambda>(name, items). items \<noteq> []) secs))"
proof (intro conjI)
  have "has_key ''Breaking'' (sections r)" using assms(1) by (simp add: has_key_def)
  then show "(''breaking'', ''Breaking'') \<in> set (get_tags r)"
    by (simp add: get_tags_def Let_def)
  have "filter (\<lambda>(name, items). items \<noteq> []) (sections r) =
        filter (\<lambda>(name, items). name \<noteq> ''Breaking'' \<and> items \<noteq> []) (sections r)"
    using assms by (intro filter_cong) (auto dest: map_of_SomeD eq_key_imp_eq_value)
  then show eq: "sections_html [] (sections r) =
           concat (map (\<lambda>(name, items). section_block name items)
                    (filter (\<lambda>(name, items). name \<noteq> ''Breaking'' \<and> items \<noteq> []) (sections r)))"
    by (simp add: sections_html_acc)
  show "\<exists>pre. generate_release_html r =
            pre @
            concat (map (\<lambda>(name, items). section_block name items)
                     (filter (\<lambda>(name, items). name \<noteq> ''Breaking'' \<and> items \<noteq> []) (sections r))) @
            ''\<newline>'' @ indent 20 @ ''</div>\<newline>'' @ indent 16 @ ''</div>\<newline>''"
    unfolding generate_release_html_def eq
    by (intro exI) (rule tail_start | rule tail_piece)+
  show "sections_html [] secs =
           concat (map (\<lambda>(name, items). section_block name items)
                    (filter (\<lambda>(name, items). items \<noteq> []) secs))"
    by (simp add: sections_html_acc)
qed

theorem empty_breaking_tagged_not_rendered_witness:
  "(''breaking'', ''Breaking'') \<in> set (get_tags \<lparr>version = ''1'', date = ''2025-01-01'', title = [],
       tags = [], sections = [(''Breaking'', [])]\<rparr>) \<and>
   sections_html [] [(''Breaking'', [])] = []"
proof -
  note c = empty_breaking_tagged_not_rendered [of "\<lparr>version = ''1'', date = ''2025-01-01'', title = [],
       tags = [], sections = [(''Breaking'', [])]\<rparr>"]
  from c [THEN conjunct1] c [THEN conjunct2, THEN conjunct1] show ?thesis by simp
qed

section \<open>Escaping\<close>

lemma sub_scan_skip: "sub_scan m (length xs) (xs @ ys) = sub_scan m 0 ys"
  by (induction xs) simp_all

lemma sub_scan_char:
  "sub_scan (\<lambda>t. if prefix [a] t then Some (new, length [a]) else None) 0 s =
   concat (map (\<lambda>c. if c = a then new else [c]) s)"
  by (induction s) simp_all

lemma replace_char:
  "replace [a] new s = concat (map (\<lambda>c. if c = a then new else [c]) s)"
  using sub_scan_char [of a new s] by (simp add: replace_def)

lemma replace_char_concat:
  "replace [a] new (concat xss) = concat (map (replace [a] new) xss)"
  by (induction xss) (simp_all add: replace_char)

lemma escape_html_chars: "escape_html text = concat (map escape_char text)"
proof -
  have 1: "replace ''&'' ''&amp;'' text = concat (map (\<lambda>c. if c = CHR ''&'' then ''&amp;'' else [c]) text)"
    by (rule replace_char)
  have 2: "replace ''>'' ''&gt;'' (replace ''<'' ''&lt;'' (if c = CHR ''&'' then ''&amp;'' else [c])) =
           escape_char c" for c
    by (simp add: replace_char escape_char_def)
  have "escape_html text =
        concat (map (\<lambda>c. replace ''>'' ''&gt;'' (replace ''<'' ''&lt;''
                      (if c = CHR ''&'' then ''&amp;'' else [c]))) text)"
    unfolding escape_html_def 1 by (simp only: replace_char_concat map_map comp_def)
  then show ?thesis by (simp only: 2)
qed



















lemma sub_scan_count:
  assumes "\<And>t out n. m t = Some (out, n) \<Longrightarrow> 0 < n \<and> count_list out c = count_list (take n t) c"
  shows "count_list (sub_scan m k s) c = count_list (drop k s) c"
  using assms
proof (induction m k s rule: sub_scan.induct)
  case (1 m k)
  then show ?case by simp
next
  case (2 m k x xs)
  then show ?case by simp
next
  case (3 m x xs)
  show ?case
  proof (cases "m (x # xs)")
    case None
    with 3 show ?thesis by simp
  next
    case (Some on)
    obtain out n where on: "on = (out, n)" by (cases on)
    from "3.prems" [of "x # xs" out n] Some on
    have n: "0 < n" and f: "count_list out c = count_list (take n (x # xs)) c" by simp_all
    from "3.IH"(2) [OF Some on [symmetric]] "3.prems"
    have "count_list (sub_scan m (n - 1) xs) c = count_list (drop (n - 1) xs) c" by simp
    moreover from n have "drop (n - 1) xs = drop n (x # xs)" by (cases n) simp_all
    ultimately have "count_list (sub_scan m 0 (x # xs)) c =
        count_list (take n (x # xs)) c + count_list (drop n (x # xs)) c"
      using Some on f by simp
    then show ?thesis by (simp only: count_list_append [symmetric] append_take_drop_id drop_0)
  qed
qed

lemma take_whole_match: "t = xs @ rest \<Longrightarrow> n = length xs \<Longrightarrow> take n t = xs"
  by simp

lemma bold_match_taken:
  assumes "bold_match t = Some (g, n)"
  shows "0 < n \<and> take n t = ''**'' @ g @ ''**''"
proof -
  from assms have p: "prefix ''**'' t" and g: "g = takeWhile (\<lambda>c. c \<noteq> CHR ''*'') (drop 2 t)"
    and q: "prefix ''**'' (dropWhile (\<lambda>c. c \<noteq> CHR ''*'') (drop 2 t))" and n: "n = length g + 4"
    by (auto simp: bold_match_def Let_def split: if_splits)
  from p have t: "t = ''**'' @ drop 2 t" by (auto simp: prefix_def)
  from q obtain rest where "dropWhile (\<lambda>c. c \<noteq> CHR ''*'') (drop 2 t) = ''**'' @ rest"
    by (auto simp: prefix_def)
  then have d: "drop 2 t = g @ ''**'' @ rest"
    using takeWhile_dropWhile_id [of "\<lambda>c. c \<noteq> CHR ''*''" "drop 2 t"] by (simp add: g)
  have "t = (''**'' @ g @ ''**'') @ rest" by (subst t, subst d) simp
  then have "take n t = ''**'' @ g @ ''**''"
    by (rule take_whole_match) (simp add: n)
  with n show ?thesis by simp
qed

lemma code_match_taken:
  assumes "code_match t = Some (g, n)"
  shows "0 < n \<and> take n t = [CHR 0x60] @ g @ [CHR 0x60]"
proof -
  from assms have p: "prefix [CHR 0x60] t" and g: "g = takeWhile (\<lambda>c. c \<noteq> CHR 0x60) (drop 1 t)"
    and q: "prefix [CHR 0x60] (dropWhile (\<lambda>c. c \<noteq> CHR 0x60) (drop 1 t))" and n: "n = length g + 2"
    by (auto simp: code_match_def Let_def split: if_splits)
  from p have t: "t = [CHR 0x60] @ drop 1 t" by (auto simp: prefix_def)
  from q obtain rest where "dropWhile (\<lambda>c. c \<noteq> CHR 0x60) (drop 1 t) = [CHR 0x60] @ rest"
    by (auto simp: prefix_def)
  then have d: "drop 1 t = g @ [CHR 0x60] @ rest"
    using takeWhile_dropWhile_id [of "\<lambda>c. c \<noteq> CHR 0x60" "drop 1 t"] by (simp add: g)
  have "t = ([CHR 0x60] @ g @ [CHR 0x60]) @ rest" by (subst t, subst d) simp
  then have "take n t = [CHR 0x60] @ g @ [CHR 0x60]"
    by (rule take_whole_match) (simp add: n)
  with n show ?thesis by simp
qed

lemma link_match_taken:
  assumes "link_match t = Some ((label, target), n)"
  shows "0 < n \<and> take n t = ''['' @ label @ '']('' @ target @ '')''"
proof -
  define after where "after = dropWhile (\<lambda>c. c \<noteq> CHR '']'') (drop 1 t)"
  from assms have p: "prefix ''['' t" and l: "label = takeWhile (\<lambda>c. c \<noteq> CHR '']'') (drop 1 t)"
    and q: "prefix '']('' after"
    and tg: "target = takeWhile (\<lambda>c. c \<noteq> CHR '')'') (drop 2 after)"
    and r: "prefix '')'' (dropWhile (\<lambda>c. c \<noteq> CHR '')'') (drop 2 after))"
    and n: "n = length label + length target + 4"
    by (auto simp: link_match_def Let_def after_def split: if_splits)
  from p have t: "t = ''['' @ drop 1 t" by (auto simp: prefix_def)
  have 1: "drop 1 t = label @ after"
    using takeWhile_dropWhile_id [of "\<lambda>c. c \<noteq> CHR '']''" "drop 1 t"] by (simp add: l after_def)
  from q have 2: "after = '']('' @ drop 2 after" by (auto simp: prefix_def)
  from r obtain rest where "dropWhile (\<lambda>c. c \<noteq> CHR '')'') (drop 2 after) = '')'' @ rest"
    by (auto simp: prefix_def)
  then have 3: "drop 2 after = target @ '')'' @ rest"
    using takeWhile_dropWhile_id [of "\<lambda>c. c \<noteq> CHR '')''" "drop 2 after"] by (simp add: tg)
  have "t = (''['' @ label @ '']('' @ target @ '')'') @ rest"
    by (subst t, subst 1, subst 2, subst 3) simp
  then have "take n t = ''['' @ label @ '']('' @ target @ '')''"
    by (rule take_whole_match) (simp add: n)
  with n show ?thesis by simp
qed

lemma kept_chars:
  assumes "c = CHR ''&'' \<or> c = CHR '';'' \<or> c = CHR 0x0A"
  shows "count_list (''<strong>'' @ g @ ''</strong>'') c = count_list (''**'' @ g @ ''**'') c"
    and "count_list (''<code class=\"code-inline\">'' @ g @ ''</code>'') c =
         count_list ([CHR 0x60] @ g @ [CHR 0x60]) c"
    and "count_list (''<a href=\"'' @ target @ ''\">'' @ label @ ''</a>'') c =
         count_list (''['' @ label @ '']('' @ target @ '')'') c"
proof -
  from assms consider "c = CHR ''&''" | "c = CHR '';''" | "c = CHR 0x0A" by blast
  then show "count_list (''<strong>'' @ g @ ''</strong>'') c = count_list (''**'' @ g @ ''**'') c"
    by cases simp_all
  from assms consider "c = CHR ''&''" | "c = CHR '';''" | "c = CHR 0x0A" by blast
  then show "count_list (''<code class=\"code-inline\">'' @ g @ ''</code>'') c =
         count_list ([CHR 0x60] @ g @ [CHR 0x60]) c"
    by cases simp_all
  from assms consider "c = CHR ''&''" | "c = CHR '';''" | "c = CHR 0x0A" by blast
  then show "count_list (''<a href=\"'' @ target @ ''\">'' @ label @ ''</a>'') c =
         count_list (''['' @ label @ '']('' @ target @ '')'') c"
    by cases simp_all
qed

lemma format_item_keeps:
  assumes "c = CHR ''&'' \<or> c = CHR '';'' \<or> c = CHR 0x0A"
  shows "count_list (format_item item) c = count_list item c"
proof -
  let ?m1 = "\<lambda>t. map_option (\<lambda>(g, n). (''<strong>'' @ g @ ''</strong>'', n)) (bold_match t)"
  let ?m2 = "\<lambda>t. map_option (\<lambda>(g, n). (''<code class=\"code-inline\">'' @ g @ ''</code>'', n)) (code_match t)"
  let ?m3 = "\<lambda>t. map_option (\<lambda>((label, target), n).
                 (''<a href=\"'' @ target @ ''\">'' @ label @ ''</a>'', n)) (link_match t)"
  have 1: "count_list (sub_scan ?m1 0 s) c = count_list s c" for s
  proof -
    have "count_list (sub_scan ?m1 0 s) c = count_list (drop 0 s) c"
    proof (rule sub_scan_count)
      fix t out n assume "?m1 t = Some (out, n)"
      then obtain g where m: "bold_match t = Some (g, n)" and out: "out = ''<strong>'' @ g @ ''</strong>''"
        by (cases "bold_match t") auto
      from bold_match_taken [OF m] have n: "0 < n" and tk: "take n t = ''**'' @ g @ ''**''"
        by (rule conjunct1, rule conjunct2)
      show "0 < n \<and> count_list out c = count_list (take n t) c"
        unfolding out tk using n kept_chars(1) [OF assms] by (intro conjI)
    qed
    then show ?thesis by (simp only: drop_0)
  qed
  have 2: "count_list (sub_scan ?m2 0 s) c = count_list s c" for s
  proof -
    have "count_list (sub_scan ?m2 0 s) c = count_list (drop 0 s) c"
    proof (rule sub_scan_count)
      fix t out n assume "?m2 t = Some (out, n)"
      then obtain g where m: "code_match t = Some (g, n)"
        and out: "out = ''<code class=\"code-inline\">'' @ g @ ''</code>''"
        by (cases "code_match t") auto
      from code_match_taken [OF m] have n: "0 < n" and tk: "take n t = [CHR 0x60] @ g @ [CHR 0x60]"
        by (rule conjunct1, rule conjunct2)
      show "0 < n \<and> count_list out c = count_list (take n t) c"
        unfolding out tk using n kept_chars(2) [OF assms] by (intro conjI)
    qed
    then show ?thesis by (simp only: drop_0)
  qed
  have 3: "count_list (sub_scan ?m3 0 s) c = count_list s c" for s
  proof -
    have "count_list (sub_scan ?m3 0 s) c = count_list (drop 0 s) c"
    proof (rule sub_scan_count)
      fix t out n assume "?m3 t = Some (out, n)"
      then obtain label target where m: "link_match t = Some ((label, target), n)"
        and out: "out = ''<a href=\"'' @ target @ ''\">'' @ label @ ''</a>''"
        by (cases "link_match t") auto
      from link_match_taken [OF m] have n: "0 < n"
        and tk: "take n t = ''['' @ label @ '']('' @ target @ '')''"
        by (rule conjunct1, rule conjunct2)
      show "0 < n \<and> count_list out c = count_list (take n t) c"
        unfolding out tk using n kept_chars(3) [OF assms] by (intro conjI)
    qed
    then show ?thesis by (simp only: drop_0)
  qed
  show ?thesis unfolding format_item_def Let_def by (simp only: 1 2 3)
qed



section \<open>The limits on items and releases\<close>

lemma str_in_append_left: "str_in sub s \<Longrightarrow> str_in sub (p @ s)"
  by (induction p) simp_all

lemma sub_scan_absent:
  assumes "old \<noteq> []" and "\<not> str_in old s"
  shows "sub_scan (\<lambda>t. if prefix old t then Some (new, length old) else None) 0 s = s"
  using assms(2) by (induction s) simp_all

lemma prefix_in_head:
  assumes "prefix old (head @ old @ tail)" and "head \<noteq> []" and "old \<noteq> []"
  shows "prefix old (head @ butlast old)"
proof -
  have split: "head @ old @ tail = (head @ butlast old) @ (last old # tail)"
    using assms(3) by simp
  have len: "length old \<le> length (head @ butlast old)"
    using assms(2,3) by (cases head) simp_all
  from assms(1) have "take (length old) (head @ old @ tail) = old"
    by (metis append_eq_conv_conj prefix_def)
  then have "take (length old) (head @ butlast old) = old"
    using len unfolding split by simp
  then show ?thesis by (metis take_is_prefix)
qed

lemma replace_once:
  assumes "old \<noteq> []" and "\<not> str_in old (head @ butlast old)" and "\<not> str_in old (tl old @ tail)"
  shows "replace old new (head @ old @ tail) = head @ new @ tail"
proof -
  let ?m = "\<lambda>t. if prefix old t then Some (new, length old) else None"
  have tail: "sub_scan ?m 0 tail = tail"
    using assms(1,3) by (intro sub_scan_absent) (auto dest: str_in_append_left)
  have "sub_scan ?m 0 (head @ old @ tail) = head @ new @ tail"
    using assms(2)
  proof (induction head)
    case Nil
    obtain c cs where old: "old = c # cs" using assms(1) by (cases old) auto
    have "sub_scan ?m 0 (c # cs @ tail) = new @ sub_scan ?m (length cs) (cs @ tail)"
      by (simp add: old)
    then show ?case by (simp add: old [symmetric] sub_scan_skip tail) (simp add: old)
  next
    case (Cons h hs)
    have "\<not> prefix old ((h # hs) @ old @ tail)"
      using Cons.prems prefix_in_head [of old "h # hs" tail] assms(1)
      by (cases "(h # hs) @ butlast old") auto
    moreover have "\<not> str_in old (hs @ butlast old)" using Cons.prems by simp
    ultimately show ?case using Cons.IH by simp
  qed
  then show ?thesis using assms(1) by (simp add: replace_def)
qed

lemma split_lines_single: "CHR 0x0A \<notin> set xs \<Longrightarrow> split_lines xs = [xs]"
  by (induction xs) auto

lemma split_lines_first:
  "CHR 0x0A \<notin> set xs \<Longrightarrow> split_lines (xs @ CHR 0x0A # ys) = xs # split_lines ys"
  by (induction xs) auto

lemma split_lines_join:
  assumes "ls \<noteq> []" and "\<forall>l \<in> set ls. CHR 0x0A \<notin> set l"
  shows "split_lines (join [CHR 0x0A] ls) = ls"
  using assms
proof (induction "[CHR 0x0A]" ls rule: join.induct)
  case 1
  then show ?case by simp
next
  case (2 x)
  then show ?case by (simp add: split_lines_single)
next
  case (3 x y ys)
  then show ?case by (simp add: split_lines_first)
qed

lemma join_Cons: "ys \<noteq> [] \<Longrightarrow> join sep (x # ys) = x @ sep @ join sep ys"
  by (cases ys) simp_all

lemma join_append:
  "xs \<noteq> [] \<Longrightarrow> ys \<noteq> [] \<Longrightarrow> join sep (xs @ ys) = join sep xs @ sep @ join sep ys"
  by (induction xs rule: list_nonempty_induct) (simp_all add: join_Cons)

lemma join_indented:
  "xs \<noteq> [] \<Longrightarrow> join [CHR 0x0A] (map (\<lambda>x. pad @ f x) xs) = pad @ join (CHR 0x0A # pad) (map f xs)"
  by (induction xs rule: list_nonempty_induct) (simp_all add: join_Cons)

lemma format_item_no_newline:
  "CHR 0x0A \<notin> set item \<Longrightarrow> CHR 0x0A \<notin> set (format_item item)"
  using format_item_keeps [of "CHR 0x0A" item] by (simp add: count_list_0_iff [symmetric])

lemma escape_html_no_newline:
  "CHR 0x0A \<notin> set name \<Longrightarrow> CHR 0x0A \<notin> set (escape_html name)"
  by (auto simp: escape_html_chars escape_char_def split: if_splits)

lemma section_block_join:
  assumes "items \<noteq> []"
  shows "section_block name items = join [CHR 0x0A] (block_lines name items)"
proof -
  have ne: "take 10 items \<noteq> []" using assms by (cases items) simp_all
  have "join [CHR 0x0A]
          (map (\<lambda>item. indent 32 @ ''<li>'' @ format_item item @ ''</li>'') (take 10 items)) =
        indent 32 @ items_html items"
    using join_indented [OF ne, of "indent 32" "\<lambda>item. ''<li>'' @ format_item item @ ''</li>''"]
    by (simp add: items_html_def)
  then show ?thesis using ne
    by (simp add: block_lines_def section_block_def join_append join_Cons)
qed

lemma section_block_lines:
  assumes "items \<noteq> []" and "CHR 0x0A \<notin> set name" and "\<forall>item \<in> set items. CHR 0x0A \<notin> set item"
  shows "split_lines (section_block name items) = block_lines name items"
proof -
  have "\<forall>l \<in> set (block_lines name items). CHR 0x0A \<notin> set l"
    using assms(2,3)
    by (auto simp: block_lines_def indent_def escape_html_no_newline format_item_no_newline
             dest: in_set_takeD)
  moreover have "block_lines name items \<noteq> []" by (simp add: block_lines_def)
  ultimately show ?thesis
    unfolding section_block_join [OF assms(1)] by (intro split_lines_join)
qed

text \<open>
  Claim C9. The block of a section renders the first 10 items of the section in their
  order and is the same as the block of those 10 items alone; the document holds the
  fragments of the first 15 records in their order and is the same as the document of
  those 15 records alone. Where the template holds the placeholder once, the document is
  the text before the placeholder, these fragments, and the text behind it. The block of
  a section with items, where neither the name nor an item holds a line break, is made of
  these lines: an empty line, the opening of the division, the heading, the opening of the
  list, then one line for each of the first 10 items in their order, which holds the
  converted item between \<^verbatim>\<open><li>\<close> and \<^verbatim>\<open></li>\<close>, then the closing of the list, the
  closing of the division and an empty line. An item behind the tenth has no line. The
  fragment of a release ends with the blocks of its sections that have items, each made
  from the first 10 items of the section, and the closing lines of the fragment.
\<close>

theorem item_and_release_limits:
  "items_html items =
     join (''\<newline>'' @ indent 32)
       (map (\<lambda>item. ''<li>'' @ format_item item @ ''</li>'') (take 10 items)) \<and>
   section_block name items = section_block name (take 10 items) \<and>
   generate_html template releases =
     replace ''{releases_html}''
       (concat (map generate_release_html (take 15 releases))) template \<and>
   generate_html template releases = generate_html template (take 15 releases) \<and>
   (\<not> str_in ''{releases_html}'' (head @ butlast ''{releases_html}'') \<and>
    \<not> str_in ''{releases_html}'' (tl ''{releases_html}'' @ tail) \<longrightarrow>
    generate_html (head @ ''{releases_html}'' @ tail) releases =
      head @ concat (map generate_release_html (take 15 releases)) @ tail) \<and>
   (items \<noteq> [] \<and> CHR 0x0A \<notin> set name \<and> (\<forall>item \<in> set items. CHR 0x0A \<notin> set item) \<longrightarrow>
    split_lines (section_block name items) =
      [[], indent 24 @ ''<div class=\"section\">'',
       indent 28 @ ''<h3 class=\"section-title\">'' @ escape_html name @ ''</h3>'',
       indent 28 @ ''<ul>''] @
      map (\<lambda>item. indent 32 @ ''<li>'' @ format_item item @ ''</li>'') (take 10 items) @
      [indent 28 @ ''</ul>'', indent 24 @ ''</div>'', []]) \<and>
   (\<exists>pre. generate_release_html r =
      pre @
      concat (map (\<lambda>(name, items). section_block name (take 10 items))
               (filter (\<lambda>(name, items). items \<noteq> []) (sections r))) @
      ''\<newline>'' @ indent 20 @ ''</div>\<newline>'' @ indent 16 @ ''</div>\<newline>'')"
proof (intro conjI impI)
  have eq: "sections_html [] (sections r) =
      concat (map (\<lambda>(name, items). section_block name (take 10 items))
               (filter (\<lambda>(name, items). items \<noteq> []) (sections r)))"
    by (simp add: sections_html_acc section_block_def items_html_def)
  show "\<exists>pre. generate_release_html r =
      pre @
      concat (map (\<lambda>(name, items). section_block name (take 10 items))
               (filter (\<lambda>(name, items). items \<noteq> []) (sections r))) @
      ''\<newline>'' @ indent 20 @ ''</div>\<newline>'' @ indent 16 @ ''</div>\<newline>''"
    unfolding generate_release_html_def eq
    by (intro exI) (rule tail_start | rule tail_piece)+
next
  assume "\<not> str_in ''{releases_html}'' (head @ butlast ''{releases_html}'') \<and>
    \<not> str_in ''{releases_html}'' (tl ''{releases_html}'' @ tail)"
  then show "generate_html (head @ ''{releases_html}'' @ tail) releases =
      head @ concat (map generate_release_html (take 15 releases)) @ tail"
    unfolding generate_html_def by (intro replace_once) simp_all
next
  assume "items \<noteq> [] \<and> CHR 0x0A \<notin> set name \<and> (\<forall>item \<in> set items. CHR 0x0A \<notin> set item)"
  then have "split_lines (section_block name items) = block_lines name items"
    by (intro section_block_lines) simp_all
  then show "split_lines (section_block name items) =
      [[], indent 24 @ ''<div class=\"section\">'',
       indent 28 @ ''<h3 class=\"section-title\">'' @ escape_html name @ ''</h3>'',
       indent 28 @ ''<ul>''] @
      map (\<lambda>item. indent 32 @ ''<li>'' @ format_item item @ ''</li>'') (take 10 items) @
      [indent 28 @ ''</ul>'', indent 24 @ ''</div>'', []]"
    by (simp only: block_lines_def)
qed (simp_all add: items_html_def section_block_def generate_html_def)

theorem item_and_release_limits_witness:
  "section_block ''Added'' [''ant'', ''bee'', ''cat'', ''dog'', ''eel'', ''fox'', ''gnu'', ''hen'', ''ibis'', ''jay'', ''kiwi''] =
   section_block ''Added'' [''ant'', ''bee'', ''cat'', ''dog'', ''eel'', ''fox'', ''gnu'', ''hen'', ''ibis'', ''jay''] \<and>
   generate_html (''<body>'' @ ''{releases_html}'' @ ''</body>'')
     (replicate 16 \<lparr>version = ''1'', date = ''2025-01-01'', title = [], tags = [], sections = []\<rparr>) =
   ''<body>'' @
   concat (map generate_release_html
     (replicate 15 \<lparr>version = ''1'', date = ''2025-01-01'', title = [], tags = [], sections = []\<rparr>)) @
   ''</body>'' \<and>
   split_lines (section_block ''Fixed'' [''bee & co'', ''**ant**'', ''cat'']) =
     [[], indent 24 @ ''<div class=\"section\">'',
      indent 28 @ ''<h3 class=\"section-title\">Fixed</h3>'',
      indent 28 @ ''<ul>'',
      indent 32 @ ''<li>bee & co</li>'',
      indent 32 @ ''<li><strong>ant</strong></li>'',
      indent 32 @ ''<li>cat</li>'',
      indent 28 @ ''</ul>'', indent 24 @ ''</div>'', []]"
proof -
  note a = item_and_release_limits [of "[''ant'', ''bee'', ''cat'', ''dog'', ''eel'', ''fox'', ''gnu'', ''hen'', ''ibis'', ''jay'', ''kiwi'']"
      "''Added''" _
      "replicate 16 \<lparr>version = ''1'', date = ''2025-01-01'', title = [], tags = [], sections = []\<rparr>"
      "''<body>''" "''</body>''"]
  have 1: "section_block ''Added'' [''ant'', ''bee'', ''cat'', ''dog'', ''eel'', ''fox'', ''gnu'', ''hen'', ''ibis'', ''jay'', ''kiwi''] =
      section_block ''Added'' (take 10 [''ant'', ''bee'', ''cat'', ''dog'', ''eel'', ''fox'', ''gnu'', ''hen'', ''ibis'', ''jay'', ''kiwi''])"
    by (rule a [THEN conjunct2, THEN conjunct1])
  have h: "\<not> str_in ''{releases_html}'' (''<body>'' @ butlast ''{releases_html}'') \<and>
    \<not> str_in ''{releases_html}'' (tl ''{releases_html}'' @ ''</body>'')"
    by simp
  have 2: "generate_html (''<body>'' @ ''{releases_html}'' @ ''</body>'')
       (replicate 16 \<lparr>version = ''1'', date = ''2025-01-01'', title = [], tags = [], sections = []\<rparr>) =
     ''<body>'' @ concat (map generate_release_html (take 15
       (replicate 16 \<lparr>version = ''1'', date = ''2025-01-01'', title = [], tags = [], sections = []\<rparr>))) @
     ''</body>''"
    by (rule a [THEN conjunct2, THEN conjunct2, THEN conjunct2, THEN conjunct2, THEN conjunct1, THEN mp, OF h])
  have g: "[''bee & co'', ''**ant**'', ''cat''] \<noteq> [] \<and> CHR 0x0A \<notin> set ''Fixed'' \<and>
    (\<forall>item \<in> set [''bee & co'', ''**ant**'', ''cat'']. CHR 0x0A \<notin> set item)"
    by simp
  have 3: "split_lines (section_block ''Fixed'' [''bee & co'', ''**ant**'', ''cat'']) =
     [[], indent 24 @ ''<div class=\"section\">'',
      indent 28 @ ''<h3 class=\"section-title\">Fixed</h3>'',
      indent 28 @ ''<ul>'',
      indent 32 @ ''<li>bee & co</li>'',
      indent 32 @ ''<li><strong>ant</strong></li>'',
      indent 32 @ ''<li>cat</li>'',
      indent 28 @ ''</ul>'', indent 24 @ ''</div>'', []]"
    by (rule trans [OF item_and_release_limits [of "[''bee & co'', ''**ant**'', ''cat'']" "''Fixed''",
          THEN conjunct2, THEN conjunct2, THEN conjunct2, THEN conjunct2, THEN conjunct2,
          THEN conjunct1, THEN mp, OF g]]) code_simp
  from 1 2 3 show ?thesis by simp
qed

section \<open>The date of a release\<close>

declare str_nat.simps [simp del]

lemma is_digit_cases:
  "is_digit c \<Longrightarrow> c = CHR ''0'' \<or> c = CHR ''1'' \<or> c = CHR ''2'' \<or> c = CHR ''3'' \<or> c = CHR ''4'' \<or>
     c = CHR ''5'' \<or> c = CHR ''6'' \<or> c = CHR ''7'' \<or> c = CHR ''8'' \<or> c = CHR ''9''"
  by (auto simp: is_digit_def)

lemma digit_facts:
  assumes "is_digit c"
  shows "\<not> isspace c" and "48 \<le> (of_char c :: nat)" and "(of_char c :: nat) \<le> 57"
  using is_digit_cases [OF assms] by (auto simp: isspace_def)

lemma strip_digits:
  assumes "\<forall>c \<in> set s. is_digit c"
  shows "strip s = s"
proof (cases "s = []")
  case True
  then show ?thesis by (simp add: strip_def)
next
  case False
  then have "hd s \<in> set s" "last s \<in> set s" by simp_all
  with assms have h: "\<not> isspace (hd s)" and l: "\<not> isspace (last s)"
    by (auto dest: digit_facts(1))
  from h have 1: "dropWhile isspace s = s" by (simp add: dropWhile_eq_self_iff)
  from l False have 2: "dropWhile isspace (rev s) = rev s"
    by (simp add: dropWhile_eq_self_iff hd_rev)
  show ?thesis by (simp add: strip_def 1 2)
qed

lemma py_int_digits4:
  assumes "is_digit a" "is_digit b" "is_digit c" "is_digit d"
  shows "py_int [a, b, c, d] =
         1000 * digit_value a + 100 * digit_value b + 10 * digit_value c + digit_value d"
proof -
  have "strip [a, b, c, d] = [a, b, c, d]" using assms by (intro strip_digits) simp
  then show ?thesis by (simp add: py_int_def digit_value_def)
qed

lemma py_int_digits2:
  assumes "is_digit a" "is_digit b"
  shows "py_int [a, b] = 10 * digit_value a + digit_value b"
proof -
  have "strip [a, b] = [a, b]" using assms by (intro strip_digits) simp
  then show ?thesis by (simp add: py_int_def digit_value_def)
qed

lemma year_pattern_digits:
  assumes "is_digit a" "is_digit b" "is_digit c" "is_digit d"
  shows "year_pattern (a # b # c # d # rest) = [([a, b, c, d], rest)]"
  using assms by (simp add: year_pattern_def seq_def digit_def one_def is_digit_def)

lemma month_pattern_digits:
  assumes "is_digit a" "is_digit b"
  shows "concat (map (\<lambda>(m, r3). concat (map (\<lambda>(h2, r4). f m r4) (one ''-'' r3)))
                  (month_pattern (a # b # CHR ''-'' # rest))) =
         (if 1 \<le> 10 * digit_value a + digit_value b \<and> 10 * digit_value a + digit_value b \<le> 12
          then f [a, b] rest else [])"
  using is_digit_cases [OF assms(1)] is_digit_cases [OF assms(2)]
  by (elim disjE; simp add: month_pattern_def alt_def seq_def one_def digit_value_def)

lemma one_hyphen: "one ''-'' (CHR ''-'' # rest) = [(''-'', rest)]"
  by (simp add: one_def)

lemma day_pattern_digits:
  assumes "is_digit a" "is_digit b"
  shows "first_whole (day_pattern [a, b]) =
         (if 1 \<le> 10 * digit_value a + digit_value b \<and> 10 * digit_value a + digit_value b \<le> 31
          then Some [a, b] else None)"
  using is_digit_cases [OF assms(1)] is_digit_cases [OF assms(2)]
  by (elim disjE;
      simp add: first_whole_def day_pattern_def alt_def seq_def one_def digit_def digit_value_def)

lemma days_in_month_le: "days_in_month y m \<le> 31"
  by (simp add: days_in_month_def)

lemma strptime_token:
  assumes "date_token s"
  shows "strptime s =
         (if valid_date (py_int (take 4 s)) (py_int (take 2 (drop 5 s))) (py_int (drop 8 s))
          then Inr (py_int (take 4 s), py_int (take 2 (drop 5 s)), py_int (drop 8 s))
          else Inl ValueError)"
proof -
  from assms obtain y1 y2 y3 y4 m1 m2 d1 d2 where
    s: "s = [y1, y2, y3, y4, CHR ''-'', m1, m2, CHR ''-'', d1, d2]"
    and dg: "is_digit y1" "is_digit y2" "is_digit y3" "is_digit y4"
      "is_digit m1" "is_digit m2" "is_digit d1" "is_digit d2"
    by (auto elim!: date_token.elims(2))
  define M where "M = 10 * digit_value m1 + digit_value m2"
  define D where "D = 10 * digit_value d1 + digit_value d2"
  define Y where "Y = py_int [y1, y2, y3, y4]"
  have m: "py_int [m1, m2] = M" and d: "py_int [d1, d2] = D"
    using dg by (simp_all add: py_int_digits2 M_def D_def)
  have pat: "date_pattern s =
      (if 1 \<le> M \<and> M \<le> 12
       then map (\<lambda>(d, r5). ([y1, y2, y3, y4], [m1, m2], d, r5)) (day_pattern [d1, d2]) else [])"
    unfolding date_pattern_def s M_def
    by (simp add: year_pattern_digits dg one_hyphen month_pattern_digits)
  have "strptime s =
      (if 1 \<le> M \<and> M \<le> 12 then
         (case first_whole (day_pattern [d1, d2]) of
            None \<Rightarrow> Inl ValueError
          | Some d \<Rightarrow> if valid_date Y M (py_int d) then Inr (Y, M, py_int d) else Inl ValueError)
       else Inl ValueError)"
    unfolding strptime_def pat
    by (auto simp: first_whole_def m Y_def split: list.splits)
  also have "\<dots> = (if valid_date Y M D then Inr (Y, M, D) else Inl ValueError)"
    using days_in_month_le [of Y M]
    by (auto simp: day_pattern_digits dg d D_def [symmetric] valid_date_def)
  finally show ?thesis by (simp add: s m d Y_def)
qed

lemma str_nat_digit: "n < 10 \<Longrightarrow> str_nat n = [char_of (48 + n)]"
  by (subst str_nat.simps) simp

lemma str_nat_step: "r < 10 \<Longrightarrow> 0 < q \<Longrightarrow> str_nat (10 * q + r) = str_nat q @ [char_of (48 + r)]"
  by (subst str_nat.simps) simp

lemma char_of_digit:
  assumes "is_digit c"
  shows "char_of (48 + digit_value c) = c" and "digit_value c < 10"
    and "digit_value c = 0 \<longleftrightarrow> c = CHR ''0''"
proof -
  have "48 + (of_char c - 48) = (of_char c :: nat)" using digit_facts(2) [OF assms] by simp
  then show "char_of (48 + digit_value c) = c" by (simp add: digit_value_def)
  show "digit_value c < 10" using digit_facts(3) [OF assms] by (simp add: digit_value_def)
  show "digit_value c = 0 \<longleftrightarrow> c = CHR ''0''"
    using is_digit_cases [OF assms] by (auto simp: digit_value_def)
qed

lemma str_nat_two_digits:
  assumes "is_digit a" "is_digit b"
  shows "(if 10 * digit_value a + digit_value b < 10 then ''0'' else []) @
         str_nat (10 * digit_value a + digit_value b) = [a, b]"
proof (cases "digit_value a = 0")
  case True
  then have a: "a = CHR ''0''" using assms char_of_digit(3) by simp
  have "digit_value (CHR ''0'') = 0" by (simp add: digit_value_def)
  then show ?thesis using assms(2)
    by (simp add: a char_of_digit(1,2) str_nat_digit)
next
  case False
  then have pos: "0 < digit_value a" by simp
  have "str_nat (10 * digit_value a + digit_value b) =
        str_nat (digit_value a) @ [char_of (48 + digit_value b)]"
    using assms(2) pos by (intro str_nat_step char_of_digit(2))
  also have "\<dots> = [a, b]"
    using assms by (simp add: str_nat_digit char_of_digit(1,2))
  finally show ?thesis using pos by simp
qed

lemma str_nat_four_digits:
  assumes "is_digit a" "is_digit b" "is_digit c" "is_digit d"
    and "1000 \<le> 1000 * digit_value a + 100 * digit_value b + 10 * digit_value c + digit_value d"
  shows "str_nat (1000 * digit_value a + 100 * digit_value b + 10 * digit_value c + digit_value d) =
         [a, b, c, d]"
proof -
  have pos: "0 < digit_value a"
    using assms char_of_digit(2) [of b] char_of_digit(2) [of c] char_of_digit(2) [of d]
    by (cases "digit_value a = 0") auto
  have "1000 * digit_value a + 100 * digit_value b + 10 * digit_value c + digit_value d =
        10 * (10 * (10 * digit_value a + digit_value b) + digit_value c) + digit_value d"
    by simp
  then show ?thesis using assms pos
    by (simp only: str_nat_step str_nat_digit char_of_digit add_pos_nonneg mult_pos_pos) simp
qed

lemma digits_zero:
  assumes "\<forall>c \<in> set ds. is_digit c"
  shows "foldl (\<lambda>n c. 10 * n + digit_value c) 0 ds = 0 \<longleftrightarrow> (\<forall>c \<in> set ds. c = CHR ''0'')"
  using assms
proof (induction ds rule: rev_induct)
  case Nil
  then show ?case by simp
next
  case (snoc x xs)
  then show ?case using char_of_digit(3) [of x] by auto
qed

lemma str_nat_digits:
  assumes "\<forall>c \<in> set ds. is_digit c" and "0 < foldl (\<lambda>n c. 10 * n + digit_value c) 0 ds"
  shows "str_nat (foldl (\<lambda>n c. 10 * n + digit_value c) 0 ds) = dropWhile (\<lambda>c. c = CHR ''0'') ds"
  using assms
proof (induction ds rule: rev_induct)
  case Nil
  then show ?case by simp
next
  case (snoc x xs)
  let ?v = "foldl (\<lambda>n c. 10 * n + digit_value c) 0 xs"
  from snoc.prems have dx: "is_digit x" and dxs: "\<forall>c \<in> set xs. is_digit c" by simp_all
  show ?case
  proof (cases "?v = 0")
    case True
    then have zeros: "\<forall>c \<in> set xs. c = CHR ''0''" using digits_zero [OF dxs] by simp
    from True snoc.prems(2) have pos: "0 < digit_value x" by simp
    then have "x \<noteq> CHR ''0''" using char_of_digit(3) [OF dx] by simp
    then have "dropWhile (\<lambda>c. c = CHR ''0'') (xs @ [x]) = [x]" using zeros by simp
    moreover have "str_nat (digit_value x) = [x]"
      using dx by (simp add: str_nat_digit char_of_digit(1,2))
    ultimately show ?thesis using True by simp
  next
    case False
    then have pos: "0 < ?v" by simp
    then obtain c where c: "c \<in> set xs" "c \<noteq> CHR ''0''"
      using digits_zero [OF dxs] by auto
    have "str_nat (10 * ?v + digit_value x) = str_nat ?v @ [char_of (48 + digit_value x)]"
      using dx pos by (intro str_nat_step char_of_digit(2))
    also have "\<dots> = dropWhile (\<lambda>c. c = CHR ''0'') xs @ [x]"
      using snoc.IH [OF dxs pos] dx by (simp add: char_of_digit(1))
    also have "\<dots> = dropWhile (\<lambda>c. c = CHR ''0'') (xs @ [x])"
      using c by simp
    finally show ?thesis by simp
  qed
qed

lemma py_int_digits:
  assumes "\<forall>c \<in> set ds. is_digit c"
  shows "py_int ds = foldl (\<lambda>n c. 10 * n + digit_value c) 0 ds"
  using strip_digits [OF assms] by (simp add: py_int_def digit_value_def)

lemma year_without_zeros:
  assumes "date_token s" and "1 \<le> py_int (take 4 s)"
  shows "str_nat (py_int (take 4 s)) = dropWhile (\<lambda>c. c = CHR ''0'') (take 4 s)"
proof -
  from assms(1) obtain y1 y2 y3 y4 m1 m2 d1 d2 where
    s: "s = [y1, y2, y3, y4, CHR ''-'', m1, m2, CHR ''-'', d1, d2]"
    and dg: "is_digit y1" "is_digit y2" "is_digit y3" "is_digit y4"
    by (auto elim!: date_token.elims(2))
  have d: "\<forall>c \<in> set (take 4 s). is_digit c" using dg by (simp add: s)
  from assms(2) have "0 < foldl (\<lambda>n c. 10 * n + digit_value c) 0 (take 4 s)"
    by (simp only: py_int_digits [OF d])
  from str_nat_digits [OF d this] show ?thesis by (simp only: py_int_digits [OF d])
qed

text \<open>
  Claim C6, amended. For every token, \<^verbatim>\<open>format_date\<close> raises no error: when \<^verbatim>\<open>strptime\<close>
  reads the token as a date of the calendar the result is the name of the month, the day
  in two digits, a comma and the year, and when \<^verbatim>\<open>strptime\<close> fails the result is the
  token itself. For a token of the shape of four digits, a hyphen, two digits, a hyphen
  and two digits, \<^verbatim>\<open>strptime\<close> succeeds exactly when the numbers are a date of the
  calendar; then the day is printed as the two digits of the token, and the year as the
  four digits of the token when it is 1000 or more. A year from 1 to 999 is printed as
  the digits of the token behind its leading zeros.
\<close>

theorem format_date_formats_or_returns:
  "(case strptime s of
      Inr (y, m, d) \<Rightarrow>
        valid_date y m d \<and>
        format_date s =
          month_name m @ '' '' @ (if d < 10 then ''0'' else []) @ str_nat d @ '', '' @ str_nat y
    | Inl e \<Rightarrow> format_date s = s) \<and>
   (date_token s \<longrightarrow>
      (valid_date (py_int (take 4 s)) (py_int (take 2 (drop 5 s))) (py_int (drop 8 s)) \<longrightarrow>
         format_date s =
           month_name (py_int (take 2 (drop 5 s))) @ '' '' @ drop 8 s @ '', '' @
           str_nat (py_int (take 4 s))) \<and>
      (1000 \<le> py_int (take 4 s) \<longrightarrow> str_nat (py_int (take 4 s)) = take 4 s) \<and>
      (1 \<le> py_int (take 4 s) \<longrightarrow>
         str_nat (py_int (take 4 s)) = dropWhile (\<lambda>c. c = CHR ''0'') (take 4 s)) \<and>
      (\<not> valid_date (py_int (take 4 s)) (py_int (take 2 (drop 5 s))) (py_int (drop 8 s)) \<longrightarrow>
         format_date s = s))"
proof (intro conjI impI)
  show "case strptime s of
      Inr (y, m, d) \<Rightarrow>
        valid_date y m d \<and>
        format_date s =
          month_name m @ '' '' @ (if d < 10 then ''0'' else []) @ str_nat d @ '', '' @ str_nat y
    | Inl e \<Rightarrow> format_date s = s"
    by (auto simp: format_date_def strftime_def strptime_def split: sum.splits list.splits if_splits)
next
  assume tok: "date_token s"
  then obtain y1 y2 y3 y4 m1 m2 d1 d2 where
    s: "s = [y1, y2, y3, y4, CHR ''-'', m1, m2, CHR ''-'', d1, d2]"
    and dg: "is_digit y1" "is_digit y2" "is_digit y3" "is_digit y4"
      "is_digit m1" "is_digit m2" "is_digit d1" "is_digit d2"
    by (auto elim!: date_token.elims(2))
  {
    assume "valid_date (py_int (take 4 s)) (py_int (take 2 (drop 5 s))) (py_int (drop 8 s))"
    then have "format_date s = strftime (py_int (take 4 s), py_int (take 2 (drop 5 s)), py_int (drop 8 s))"
      by (simp add: format_date_def strptime_token [OF tok])
    also have "\<dots> = month_name (py_int (take 2 (drop 5 s))) @ '' '' @ drop 8 s @ '', '' @
           str_nat (py_int (take 4 s))"
      using str_nat_two_digits [OF dg(7,8)]
      by (simp add: strftime_def s py_int_digits2 dg)
    finally show "format_date s =
           month_name (py_int (take 2 (drop 5 s))) @ '' '' @ drop 8 s @ '', '' @
           str_nat (py_int (take 4 s))" .
  }
  {
    assume "1000 \<le> py_int (take 4 s)"
    then show "str_nat (py_int (take 4 s)) = take 4 s"
      using str_nat_four_digits [OF dg(1-4)] by (simp add: s py_int_digits4 dg)
  }
  {
    assume "1 \<le> py_int (take 4 s)"
    with tok show "str_nat (py_int (take 4 s)) = dropWhile (\<lambda>c. c = CHR ''0'') (take 4 s)"
      by (rule year_without_zeros)
  }
  {
    assume "\<not> valid_date (py_int (take 4 s)) (py_int (take 2 (drop 5 s))) (py_int (drop 8 s))"
    then show "format_date s = s"
      by (simp add: format_date_def strptime_token [OF tok])
  }
qed

theorem format_date_formats_or_returns_witness:
  "format_date ''2025-12-13'' = ''December 13, 2025'' \<and> format_date ''2025-13-45'' = ''2025-13-45''"
proof -
  have 1: "date_token ''2025-12-13''" and 2: "date_token ''2025-13-45''"
    by (simp_all add: is_digit_def)
  have v1: "valid_date (py_int (take 4 ''2025-12-13'')) (py_int (take 2 (drop 5 ''2025-12-13'')))
      (py_int (drop 8 ''2025-12-13''))"
    by code_simp
  have v2: "\<not> valid_date (py_int (take 4 ''2025-13-45'')) (py_int (take 2 (drop 5 ''2025-13-45'')))
      (py_int (drop 8 ''2025-13-45''))"
    by code_simp
  have "format_date ''2025-12-13'' = ''December 13, 2025''"
    by (rule trans [OF format_date_formats_or_returns [of "''2025-12-13''", THEN conjunct2, rule_format, OF 1,
          THEN conjunct1, rule_format, OF v1]]) code_simp
  moreover have "format_date ''2025-13-45'' = ''2025-13-45''"
    by (rule format_date_formats_or_returns [of "''2025-13-45''", THEN conjunct2, rule_format, OF 2,
          THEN conjunct2, THEN conjunct2, THEN conjunct2, rule_format, OF v2])
  ultimately show ?thesis by (rule conjI)
qed

text \<open>
  Claim C6 as it is written fails for a year below 1000. The line
  \<^verbatim>\<open>## [0.0.1] - 0999-01-01\<close> is a release header, its date is a date of the calendar, and
  the year of the formatted date has three digits, where the form \<^verbatim>\<open>YYYY\<close> has four.
\<close>

theorem year_below_1000_printed_short:
  "release_match ''## [0.0.1] - 0999-01-01'' = Some (''0.0.1'', ''0999-01-01'') \<and>
   format_date ''0999-01-01'' = ''January 01, 999''"
  by code_simp

end
